theory Spec2Isabelle
  imports Complex_Main "HOL-Library.Multiset"
begin

section \<open>Numbers, points and the shoelace area\<close>

text \<open>
  The controller computes with JavaScript numbers.  They are modelled as exact reals:
  every finite double is a real, \<open>Math.PI\<close>, \<open>Math.cos\<close>, \<open>Math.sin\<close> and
  \<open>Math.atan2\<close> are the mathematical functions, and IEEE rounding, \<open>NaN\<close>, the
  infinities and the sign of zero are outside the model.
\<close>

type_synonym number = real

text \<open>The object type \<^verbatim>\<open>{ x: number; y: number }\<close>.\<close>

record point =
  pt_x :: number
  pt_y :: number

text \<open>
  \<^verbatim>\<open>calculateArea\<close>: the loop \<^verbatim>\<open>for (let i = 0; i < n; i++)\<close> adds
  \<^verbatim>\<open>x1 * y2 - x2 * y1\<close> for \<^verbatim>\<open>points[i]\<close> and \<^verbatim>\<open>points[(i + 1) % n]\<close>; both
  indices are below \<open>n\<close> whenever the body runs.
\<close>

definition shoelaceTerm :: "point list \<Rightarrow> nat \<Rightarrow> number" where
  "shoelaceTerm points i =
     (let n = length points;
          x1 = pt_x (points ! i); y1 = pt_y (points ! i);
          x2 = pt_x (points ! ((i + 1) mod n)); y2 = pt_y (points ! ((i + 1) mod n))
      in x1 * y2 - x2 * y1)"

definition calculateArea :: "point list \<Rightarrow> number" where
  "calculateArea points =
     (let n = length points;
          area = foldl (\<lambda>area i. area + shoelaceTerm points i) 0 [0..<n]
      in \<bar>area\<bar> / 2)"

section \<open>Snapping endpoints to keys\<close>

text \<open>
  \<^verbatim>\<open>roundNumber(num, decimals = 6)\<close> is \<^verbatim>\<open>Number(num.toFixed(decimals))\<close>.
  \<^verbatim>\<open>toFixed\<close> answers the decimal string of \<open>n / 10^decimals\<close> for the integer \<open>n\<close>
  nearest to \<open>num * 10^decimals\<close>, the larger \<open>n\<close> on a tie, after it has taken the
  sign off a negative \<open>num\<close>; from \<open>10^21\<close> on it answers the number's own string.
\<close>

definition roundNumber :: "number \<Rightarrow> nat \<Rightarrow> number" where
  "roundNumber num decimals =
     (if 10 ^ 21 \<le> \<bar>num\<bar> then num
      else if num < 0 then - (of_int \<lfloor>(- num) * 10 ^ decimals + 1 / 2\<rfloor> / 10 ^ decimals)
      else of_int \<lfloor>num * 10 ^ decimals + 1 / 2\<rfloor> / 10 ^ decimals)"

text \<open>
  \<^verbatim>\<open>pointKey\<close> joins the two rounded numbers with an underscore.  A number's string
  never holds an underscore and two numbers print alike only when they are equal, so
  the key is modelled as the pair of rounded numbers.
\<close>

type_synonym key = "number \<times> number"

definition pointKey :: "point \<Rightarrow> key" where
  "pointKey pt = (roundNumber (pt_x pt) 6, roundNumber (pt_y pt) 6)"

section \<open>Entities and the normalizer\<close>

text \<open>
  The entity records of the parser, by their \<^verbatim>\<open>type\<close> tag: \<open>CIRCLE center radius\<close>,
  \<open>LWPOLYLINE vertices closed shape\<close> (the two flags are optional booleans),
  \<open>LINE startPoint endPoint\<close>, \<open>ARC center radius startAngle endAngle\<close>, and any other
  tag.
\<close>

datatype entity =
    CIRCLE point number
  | LWPOLYLINE "point list" "bool option" "bool option"
  | LINE point point
  | ARC point number number number
  | OTHER string

record segment =
  seg_start :: point
  seg_end :: point

text \<open>JavaScript truthiness of an optional boolean field.\<close>

definition truthy :: "bool option \<Rightarrow> bool" where
  "truthy b = (b = Some True)"

text \<open>The three variables the \<^verbatim>\<open>dxf.entities.forEach\<close> loop updates.\<close>

record normalized =
  independentPierceCount :: nat
  independentArea :: number
  segments :: "segment list"

text \<open>
  The \<^verbatim>\<open>ARC\<close> case computes the same expression for its start and its end angle
  (in degrees): the point of the circle at that angle.
\<close>

definition arcPoint :: "point \<Rightarrow> number \<Rightarrow> number \<Rightarrow> point" where
  "arcPoint center radius angle =
     (let rad = (angle * pi) / 180
      in \<lparr>pt_x = pt_x center + radius * cos rad, pt_y = pt_y center + radius * sin rad\<rparr>)"

text \<open>
  The body of the loop, one equation for each \<^verbatim>\<open>case\<close> of the \<^verbatim>\<open>switch\<close>.  The guard
  \<^verbatim>\<open>poly.vertices &&\<close> is true of every polyline, whose \<^verbatim>\<open>vertices\<close> is an array.
\<close>

fun processEntity :: "normalized \<Rightarrow> entity \<Rightarrow> normalized" where
  "processEntity st (CIRCLE center radius) =
     st\<lparr>independentArea := independentArea st + pi * radius ^ 2,
        independentPierceCount := independentPierceCount st + 1\<rparr>"
| "processEntity st (LWPOLYLINE vertices closedFlag shapeFlag) =
     (if truthy closedFlag \<or> truthy shapeFlag then
        (let st' = (if length vertices > 2
                    then st\<lparr>independentArea := independentArea st + calculateArea vertices\<rparr>
                    else st)
         in st'\<lparr>independentPierceCount := independentPierceCount st' + 1\<rparr>)
      else st\<lparr>independentPierceCount := independentPierceCount st + 2\<rparr>)"
| "processEntity st (LINE startPoint endPoint) =
     st\<lparr>segments := segments st @ [\<lparr>seg_start = startPoint, seg_end = endPoint\<rparr>]\<rparr>"
| "processEntity st (ARC center radius startAngle endAngle) =
     st\<lparr>segments := segments st @
        [\<lparr>seg_start = arcPoint center radius startAngle,
          seg_end = arcPoint center radius endAngle\<rparr>]\<rparr>"
| "processEntity st (OTHER tag) = st"

definition normalizeEntities :: "entity list \<Rightarrow> normalized" where
  "normalizeEntities entities =
     foldl processEntity
       \<lparr>independentPierceCount = 0, independentArea = 0, segments = []\<rparr> entities"

section \<open>The endpoint graph\<close>

text \<open>
  \<^verbatim>\<open>graph\<close> is an object from keys to \<^verbatim>\<open>Set<string>\<close>.  Both iterate in insertion
  order, so the object is an association list in insertion order and a set is the list
  of its members in insertion order.  Reading a key the object does not have gives
  \<^verbatim>\<open>undefined\<close>, and calling a method on it throws a \<^verbatim>\<open>TypeError\<close>.
\<close>

datatype error = TypeError

type_synonym Graph = "(key \<times> key list) list"

record graphState =
  graph :: Graph
  pointsMap :: "key \<rightharpoonup> point"

definition setAdd :: "'a \<Rightarrow> 'a list \<Rightarrow> 'a list" where
  "setAdd v s = (if v \<in> set s then s else s @ [v])"

text \<open>\<^verbatim>\<open>if (!graph[k]) { graph[k] = new Set(); pointsMap[k] = pt; }\<close>\<close>

definition ensureNode :: "graphState \<Rightarrow> key \<Rightarrow> point \<Rightarrow> graphState" where
  "ensureNode st k pt =
     (case map_of (graph st) k of
        None \<Rightarrow> st\<lparr>graph := graph st @ [(k, [])], pointsMap := (pointsMap st)(k \<mapsto> pt)\<rparr>
      | Some _ \<Rightarrow> st)"

text \<open>\<^verbatim>\<open>graph[k].add(v)\<close>\<close>

definition graphAdd :: "Graph \<Rightarrow> key \<Rightarrow> key \<Rightarrow> error + Graph" where
  "graphAdd g k v =
     (case map_of g k of
        None \<Rightarrow> Inl TypeError
      | Some _ \<Rightarrow> Inr (map (\<lambda>(k', s). if k' = k then (k', setAdd v s) else (k', s)) g))"

definition addSegment :: "graphState \<Rightarrow> segment \<Rightarrow> error + graphState" where
  "addSegment st seg =
     (let key1 = pointKey (seg_start seg);
          key2 = pointKey (seg_end seg);
          st1 = ensureNode st key1 (seg_start seg);
          st2 = ensureNode st1 key2 (seg_end seg)
      in case graphAdd (graph st2) key1 key2 of
           Inl e \<Rightarrow> Inl e
         | Inr g1 \<Rightarrow>
             (case graphAdd g1 key2 key1 of
                Inl e \<Rightarrow> Inl e
              | Inr g2 \<Rightarrow> Inr (st2\<lparr>graph := g2\<rparr>)))"

fun buildFrom :: "graphState \<Rightarrow> segment list \<Rightarrow> error + graphState" where
  "buildFrom st [] = Inr st"
| "buildFrom st (seg # segs) =
     (case addSegment st seg of Inl e \<Rightarrow> Inl e | Inr st' \<Rightarrow> buildFrom st' segs)"

definition buildGraph :: "segment list \<Rightarrow> error + graphState" where
  "buildGraph segs = buildFrom \<lparr>graph = [], pointsMap = Map.empty\<rparr> segs"

section \<open>Connected components\<close>

text \<open>
  The \<^verbatim>\<open>while (stack.length > 0)\<close> loop.  The array \<^verbatim>\<open>stack\<close> is a list whose head is
  the array's last element: \<^verbatim>\<open>pop\<close> takes the head, and the \<^verbatim>\<open>forEach\<close> over the
  neighbours pushes them one by one, so they land in reverse order on top.  The set
  \<^verbatim>\<open>visited\<close> is only ever asked for membership.  The array \<^verbatim>\<open>comp\<close> is \<open>compKeys\<close>
  here.  A neighbour that is not a key of the graph would make \<^verbatim>\<open>graph[current]\<close>
  undefined on its turn.
\<close>

function traverse :: "Graph \<Rightarrow> key set \<Rightarrow> key list \<Rightarrow> key list \<Rightarrow> error + (key set \<times> key list)" where
  "traverse g visited compKeys [] = Inr (visited, compKeys)"
| "traverse g visited compKeys (current # stack) =
     (if current \<in> visited then traverse g visited compKeys stack
      else case map_of g current of
             None \<Rightarrow> Inl TypeError
           | Some adj \<Rightarrow>
               traverse g (insert current visited) (compKeys @ [current])
                 (rev (filter (\<lambda>neighbor. neighbor \<notin> insert current visited) adj) @ stack))"
  by pat_completeness auto
termination
proof (relation "measures [\<lambda>(g, visited, compKeys, stack). card (dom (map_of g) - visited),
                           \<lambda>(g, visited, compKeys, stack). length stack]", goal_cases)
  case 1
  show ?case by simp
next
  case 2
  then show ?case by simp
next
  case (3 g visited compKeys current stack adj)
  then have "dom (map_of g) - insert current visited \<subset> dom (map_of g) - visited"
    by auto
  then have "card (dom (map_of g) - insert current visited) < card (dom (map_of g) - visited)"
    by (intro psubset_card_mono) (simp_all add: finite_dom_map_of)
  then show ?case by simp
qed

text \<open>The \<^verbatim>\<open>for (const key in graph)\<close> loop over the keys in insertion order.\<close>

fun componentsLoop :: "Graph \<Rightarrow> key list \<Rightarrow> key set \<Rightarrow> key list list \<Rightarrow> error + key list list" where
  "componentsLoop g [] visited components = Inr components"
| "componentsLoop g (key # keys) visited components =
     (if key \<in> visited then componentsLoop g keys visited components
      else case traverse g visited [] [key] of
             Inl e \<Rightarrow> Inl e
           | Inr (visited', compKeys) \<Rightarrow> componentsLoop g keys visited' (components @ [compKeys]))"

definition findComponents :: "Graph \<Rightarrow> error + key list list" where
  "findComponents g = componentsLoop g (map fst g) {} []"

section \<open>Classifying the components\<close>

text \<open>
  \<^verbatim>\<open>Math.atan2(y, x)\<close> as the mathematical two-argument arctangent: the angle in
  \<open>(-\<pi>, \<pi>]\<close> of the point \<open>(x, y)\<close>, and 0 at the origin.
\<close>

definition atan2 :: "number \<Rightarrow> number \<Rightarrow> number" where
  "atan2 y x =
     (if 0 < x then arctan (y / x)
      else if x < 0 then (if 0 \<le> y then arctan (y / x) + pi else arctan (y / x) - pi)
      else if 0 < y then pi / 2
      else if y < 0 then - (pi / 2)
      else 0)"

text \<open>
  \<^verbatim>\<open>comp.every((key) => graph[key].size === 2)\<close>, which stops at the first failure.  A
  set is a list without repetition, so its size is the list's length.
\<close>

fun everySizeTwo :: "Graph \<Rightarrow> key list \<Rightarrow> error + bool" where
  "everySizeTwo g [] = Inr True"
| "everySizeTwo g (key # keys) =
     (case map_of g key of
        None \<Rightarrow> Inl TypeError
      | Some adj \<Rightarrow> if length adj = 2 then everySizeTwo g keys else Inr False)"

text \<open>
  \<^verbatim>\<open>comp.map((key) => pointsMap[key])\<close>; a key without a point gives \<^verbatim>\<open>undefined\<close>,
  whose \<^verbatim>\<open>x\<close> the centroid's \<^verbatim>\<open>reduce\<close> then fails to read.
\<close>

fun lookupPoints :: "(key \<rightharpoonup> point) \<Rightarrow> key list \<Rightarrow> error + point list" where
  "lookupPoints pm [] = Inr []"
| "lookupPoints pm (key # keys) =
     (case pm key of
        None \<Rightarrow> Inl TypeError
      | Some pt \<Rightarrow>
          (case lookupPoints pm keys of Inl e \<Rightarrow> Inl e | Inr pts \<Rightarrow> Inr (pt # pts)))"

definition centroidOf :: "point list \<Rightarrow> point" where
  "centroidOf pts =
     (let acc = foldl (\<lambda>acc pt. \<lparr>pt_x = pt_x acc + pt_x pt, pt_y = pt_y acc + pt_y pt\<rparr>)
                  \<lparr>pt_x = 0, pt_y = 0\<rparr> pts
      in \<lparr>pt_x = pt_x acc / real (length pts), pt_y = pt_y acc / real (length pts)\<rparr>)"

definition angleAround :: "point \<Rightarrow> point \<Rightarrow> number" where
  "angleAround centroid a = atan2 (pt_y a - pt_y centroid) (pt_x a - pt_x centroid)"

text \<open>
  \<^verbatim>\<open>pts.sort\<close> with the comparator \<^verbatim>\<open>angleA - angleB\<close>: a stable sort by ascending
  angle.
\<close>

definition sortByAngle :: "point list \<Rightarrow> point list" where
  "sortByAngle pts = sort_key (angleAround (centroidOf pts)) pts"

text \<open>
  The body of \<^verbatim>\<open>components.forEach\<close>: what one component adds to
  \<^verbatim>\<open>groupedPierceCount\<close> and \<^verbatim>\<open>groupedArea\<close>.
\<close>

definition componentContribution ::
  "Graph \<Rightarrow> (key \<rightharpoonup> point) \<Rightarrow> key list \<Rightarrow> error + (nat \<times> number)" where
  "componentContribution g pm compKeys =
     (case everySizeTwo g compKeys of
        Inl e \<Rightarrow> Inl e
      | Inr isClosed \<Rightarrow>
          if isClosed \<and> length compKeys \<ge> 3 then
            (case lookupPoints pm compKeys of
               Inl e \<Rightarrow> Inl e
             | Inr pts \<Rightarrow> Inr (1, calculateArea (sortByAngle pts)))
          else Inr (2, 0))"

fun groupComponents ::
  "Graph \<Rightarrow> (key \<rightharpoonup> point) \<Rightarrow> nat \<times> number \<Rightarrow> key list list \<Rightarrow> error + (nat \<times> number)" where
  "groupComponents g pm acc [] = Inr acc"
| "groupComponents g pm (groupedPierceCount, groupedArea) (compKeys # comps) =
     (case componentContribution g pm compKeys of
        Inl e \<Rightarrow> Inl e
      | Inr (p, a) \<Rightarrow> groupComponents g pm (groupedPierceCount + p, groupedArea + a) comps)"

section \<open>The engine\<close>

record result =
  pierceCount :: nat
  area :: number

definition conversionFactor :: number where
  "conversionFactor = 1"

text \<open>
  \<^verbatim>\<open>uploadDXF\<close> from \<^verbatim>\<open>dxf.entities.forEach\<close> on: the entity list is what the
  parser returned.
\<close>

definition uploadDXF :: "entity list \<Rightarrow> error + result" where
  "uploadDXF entities =
     (let norm = normalizeEntities entities in
      case buildGraph (segments norm) of
        Inl e \<Rightarrow> Inl e
      | Inr st \<Rightarrow>
          (case findComponents (graph st) of
             Inl e \<Rightarrow> Inl e
           | Inr components \<Rightarrow>
               (case groupComponents (graph st) (pointsMap st) (0, 0) components of
                  Inl e \<Rightarrow> Inl e
                | Inr (groupedPierceCount, groupedArea) \<Rightarrow>
                    (let totalPierceCount = independentPierceCount norm + groupedPierceCount;
                         totalAreaInDrawingUnits = independentArea norm + groupedArea;
                         totalAreaInInches = totalAreaInDrawingUnits * conversionFactor ^ 2
                     in Inr \<lparr>pierceCount = totalPierceCount, area = totalAreaInInches\<rparr>))))"

section \<open>The graph as the specification sees it\<close>

text \<open>
  The nodes of a graph are its keys, and the adjacency set of a key is the set stored
  under it (empty for a key the graph does not have).  An edge joins a key to each
  member of its adjacency set, and the connected component of a key is all it reaches
  along edges.
\<close>

definition nodes :: "Graph \<Rightarrow> key set" where
  "nodes g = fst ` set g"

definition adjacent :: "Graph \<Rightarrow> key \<Rightarrow> key set" where
  "adjacent g k = (case map_of g k of None \<Rightarrow> {} | Some s \<Rightarrow> set s)"

definition edges :: "Graph \<Rightarrow> (key \<times> key) set" where
  "edges g = {(a, b). b \<in> adjacent g a}"

definition reachable :: "Graph \<Rightarrow> key \<Rightarrow> key set" where
  "reachable g k = (edges g)\<^sup>* `` {k}"

text \<open>
  What a segment list says about the graph: the pair of keys of each segment, the
  points that are an end of some segment, and the pairs of keys some segment joins, in
  either direction.  Two segments join the same nodes when their key pairs agree up to
  direction.
\<close>

definition segKeys :: "segment \<Rightarrow> key \<times> key" where
  "segKeys seg = (pointKey (seg_start seg), pointKey (seg_end seg))"

definition endpoints :: "segment list \<Rightarrow> point set" where
  "endpoints segs = seg_start ` set segs \<union> seg_end ` set segs"

definition keyEdges :: "segment list \<Rightarrow> (key \<times> key) set" where
  "keyEdges segs = segKeys ` set segs \<union> prod.swap ` segKeys ` set segs"

definition sameNodes :: "segment \<Rightarrow> segment \<Rightarrow> bool" where
  "sameNodes d s \<longleftrightarrow> segKeys d = segKeys s \<or> segKeys d = prod.swap (segKeys s)"

text \<open>
  The invariant of the builder's state: keys are stored once, every adjacency set lists
  its members once and holds only keys of the graph, adjacency is symmetric, and the
  points map has a point for exactly the keys of the graph, each point one that snaps to
  its key.  The first three clauses about the graph alone are all the traversal needs.
\<close>

definition graphInv :: "graphState \<Rightarrow> bool" where
  "graphInv st \<longleftrightarrow>
     distinct (map fst (graph st)) \<and>
     (\<forall>k s. map_of (graph st) k = Some s \<longrightarrow> distinct s \<and> set s \<subseteq> nodes (graph st)) \<and>
     (\<forall>a b. b \<in> adjacent (graph st) a \<longrightarrow> a \<in> adjacent (graph st) b) \<and>
     dom (pointsMap st) = nodes (graph st) \<and>
     (\<forall>k p. pointsMap st k = Some p \<longrightarrow> pointKey p = k)"

definition graphClosed :: "Graph \<Rightarrow> bool" where
  "graphClosed g \<longleftrightarrow>
     (\<forall>k s. map_of g k = Some s \<longrightarrow> set s \<subseteq> nodes g) \<and>
     (\<forall>a b. b \<in> adjacent g a \<longrightarrow> a \<in> adjacent g b)"

text \<open>
  The loop detector in the specification's words.  The centroid is the arithmetic mean
  of the points; the points of a loop are ordered by ascending \<open>atan2\<close> angle around
  it; a component is a closed loop when each of its nodes has exactly two adjacent nodes
  and it has at least three nodes.  \<open>specContribution g pm c r\<close> says that \<open>r\<close> is
  what the specification gives the component \<open>c\<close>: pierce count 1 and the shoelace area
  of its points in such an order for a closed loop, pierce count 2 and area 0 otherwise.
\<close>

definition meanPoint :: "point list \<Rightarrow> point" where
  "meanPoint ps =
     \<lparr>pt_x = sum_list (map pt_x ps) / real (length ps),
      pt_y = sum_list (map pt_y ps) / real (length ps)\<rparr>"

definition angleSorted :: "point list \<Rightarrow> point list \<Rightarrow> bool" where
  "angleSorted ps vs \<longleftrightarrow>
     mset vs = mset ps \<and>
     sorted (map (\<lambda>v. atan2 (pt_y v - pt_y (meanPoint ps)) (pt_x v - pt_x (meanPoint ps))) vs)"

definition closedLoop :: "Graph \<Rightarrow> key set \<Rightarrow> bool" where
  "closedLoop g C \<longleftrightarrow> (\<forall>k\<in>C. card (adjacent g k) = 2) \<and> 3 \<le> card C"

definition specContribution :: "Graph \<Rightarrow> (key \<rightharpoonup> point) \<Rightarrow> key list \<Rightarrow> nat \<times> number \<Rightarrow> bool" where
  "specContribution g pm c r \<longleftrightarrow>
     (if closedLoop g (set c)
      then fst r = 1 \<and>
           (\<exists>ps vs. list_all2 (\<lambda>k p. pm k = Some p) c ps \<and> angleSorted ps vs \<and>
                    snd r = calculateArea vs)
      else r = (2, 0))"

text \<open>
  Two parts of \<open>uploadDXF\<close> by themselves: what the graph stages make of a segment list
  (\<^verbatim>\<open>groupedPierceCount\<close> and \<^verbatim>\<open>groupedArea\<close>), and the normalizer's state before the
  first entity, with the sum of two states.
\<close>

definition grouped :: "segment list \<Rightarrow> error + (nat \<times> number)" where
  "grouped segs =
     (case buildGraph segs of
        Inl e \<Rightarrow> Inl e
      | Inr st \<Rightarrow>
          (case findComponents (graph st) of
             Inl e \<Rightarrow> Inl e
           | Inr components \<Rightarrow> groupComponents (graph st) (pointsMap st) (0, 0) components))"

definition initial :: normalized where
  "initial = \<lparr>independentPierceCount = 0, independentArea = 0, segments = []\<rparr>"

definition plus_normalized :: "normalized \<Rightarrow> normalized \<Rightarrow> normalized" where
  "plus_normalized a b =
     \<lparr>independentPierceCount = independentPierceCount a + independentPierceCount b,
      independentArea = independentArea a + independentArea b,
      segments = segments a @ segments b\<rparr>"




section \<open>Example drawings\<close>

text \<open>
  Points and segments by their coordinates; the unit square as four segments and as four
  \<^verbatim>\<open>LINE\<close> entities, with the graph and the points map the builder makes of it; and an
  open chain of two lines with a zero-length line at each end, with its graph and points
  map.
\<close>

definition Pt :: "number \<Rightarrow> number \<Rightarrow> point" where
  "Pt a b = \<lparr>pt_x = a, pt_y = b\<rparr>"

definition Seg :: "point \<Rightarrow> point \<Rightarrow> segment" where
  "Seg a b = \<lparr>seg_start = a, seg_end = b\<rparr>"

definition unitSquare :: "segment list" where
  "unitSquare = [Seg (Pt 0 0) (Pt 1 0), Seg (Pt 1 0) (Pt 1 1), Seg (Pt 1 1) (Pt 0 1), Seg (Pt 0 1) (Pt 0 0)]"

definition squareLines :: "entity list" where
  "squareLines = [LINE (Pt 0 0) (Pt 1 0), LINE (Pt 1 0) (Pt 1 1), LINE (Pt 1 1) (Pt 0 1), LINE (Pt 0 1) (Pt 0 0)]"


definition squareGraph :: Graph where
  "squareGraph = [((0, 0), [(1, 0), (0, 1)]), ((1, 0), [(0, 0), (1, 1)]),
                  ((1, 1), [(1, 0), (0, 1)]), ((0, 1), [(1, 1), (0, 0)])]"

definition squarePoints :: "key \<rightharpoonup> point" where
  "squarePoints = [(0, 0) \<mapsto> Pt 0 0, (1, 0) \<mapsto> Pt 1 0, (1, 1) \<mapsto> Pt 1 1, (0, 1) \<mapsto> Pt 0 1]"

definition danglingChain :: "entity list" where
  "danglingChain =
     [LINE (Pt 0 0) (Pt 0 0), LINE (Pt 0 0) (Pt 2 0), LINE (Pt 2 0) (Pt 1 3), LINE (Pt 1 3) (Pt 1 3)]"

definition chainGraph :: Graph where
  "chainGraph = [((0, 0), [(0, 0), (2, 0)]), ((2, 0), [(0, 0), (1, 3)]), ((1, 3), [(2, 0), (1, 3)])]"

definition chainPoints :: "key \<rightharpoonup> point" where
  "chainPoints = [(0, 0) \<mapsto> Pt 0 0, (2, 0) \<mapsto> Pt 2 0, (1, 3) \<mapsto> Pt 1 3]"

section \<open>Properties of the shoelace area\<close>








section \<open>Properties of the graph builder and the traversal\<close>

lemma nodes_dom: "nodes g = dom (map_of g)"
  by (simp add: nodes_def dom_map_of_conv_image_fst)

lemma set_setAdd [simp]: "set (setAdd v s) = insert v (set s)"
  by (auto simp: setAdd_def)

lemma distinct_setAdd [simp]: "distinct (setAdd v s) = distinct s"
  by (auto simp: setAdd_def)

lemma setAdd_member: "v \<in> set s \<Longrightarrow> setAdd v s = s"
  by (simp add: setAdd_def)

lemma map_of_adjust:
  "map_of (map (\<lambda>(k', s). if k' = k then (k', f s) else (k', s)) g) a =
     (if a = k then map_option f (map_of g k) else map_of g a)"
  by (induction g) auto

lemma map_fst_adjust:
  "map fst (map (\<lambda>(k', s). if k' = k then (k', f s) else (k', s)) g) = map fst g"
  by (induction g) auto

lemma adjust_ident:
  "distinct (map fst g) \<Longrightarrow> map_of g k = Some s \<Longrightarrow> f s = s \<Longrightarrow>
     map (\<lambda>(k', s). if k' = k then (k', f s) else (k', s)) g = g"
proof (induction g)
  case Nil
  then show ?case by simp
next
  case (Cons e g)
  obtain k0 s0 where e: "e = (k0, s0)" by (cases e)
  show ?case
  proof (cases "k0 = k")
    case True
    with Cons.prems e have "s0 = s" by simp
    moreover have "map (\<lambda>(k', s). if k' = k then (k', f s) else (k', s)) g = g"
    proof (rule map_idI)
      fix x assume "x \<in> set g"
      with Cons.prems(1) e True have "fst x \<noteq> k" by force
      then show "(case x of (k', s) \<Rightarrow> if k' = k then (k', f s) else (k', s)) = x"
        by (cases x) simp
    qed
    ultimately show ?thesis using e True Cons.prems(3) by simp
  next
    case False
    with Cons e show ?thesis by simp
  qed
qed

lemma graphAdd_Some:
  "map_of g k = Some s \<Longrightarrow>
     graphAdd g k v = Inr (map (\<lambda>(k', s). if k' = k then (k', setAdd v s) else (k', s)) g)"
  by (simp add: graphAdd_def)

lemma graphAdd_props:
  assumes "map_of g k = Some s"
  obtains g' where "graphAdd g k v = Inr g'" "map fst g' = map fst g"
    "map_of g' = (map_of g)(k \<mapsto> setAdd v s)"
proof
  let ?g' = "map (\<lambda>(k', s). if k' = k then (k', setAdd v s) else (k', s)) g"
  show "graphAdd g k v = Inr ?g'" using assms by (rule graphAdd_Some)
  show "map fst ?g' = map fst g" by (rule map_fst_adjust)
  show "map_of ?g' = (map_of g)(k \<mapsto> setAdd v s)"
    using assms by (auto simp: map_of_adjust)
qed

lemma ensureNode_props:
  "map fst (graph (ensureNode st k pt)) =
      (if k \<in> nodes (graph st) then map fst (graph st) else map fst (graph st) @ [k])"
  "map_of (graph (ensureNode st k pt)) =
      (if k \<in> nodes (graph st) then map_of (graph st) else (map_of (graph st))(k \<mapsto> []))"
  "pointsMap (ensureNode st k pt) =
      (if k \<in> nodes (graph st) then pointsMap st else (pointsMap st)(k \<mapsto> pt))"
  by (auto simp: ensureNode_def nodes_dom map_of_append fun_eq_iff map_add_def
      split: option.splits)

lemma addSegment_explicit:
  fixes st seg
  defines "k1 \<equiv> pointKey (seg_start seg)" and "k2 \<equiv> pointKey (seg_end seg)"
  defines "m \<equiv> map_of (graph st)"
  defines "s1 \<equiv> (case m k1 of None \<Rightarrow> [] | Some s \<Rightarrow> s)"
  defines "s2 \<equiv> (case m k2 of None \<Rightarrow> [] | Some s \<Rightarrow> s)"
  obtains st' where "addSegment st seg = Inr st'"
    and "map fst (graph st') = map fst (graph st) @ (if k1 \<in> nodes (graph st) then [] else [k1])
            @ (if k2 \<in> insert k1 (nodes (graph st)) then [] else [k2])"
    and "map_of (graph st') =
           (if k1 = k2 then m(k1 \<mapsto> setAdd k1 s1)
            else m(k1 \<mapsto> setAdd k2 s1, k2 \<mapsto> setAdd k1 s2))"
    and "pointsMap st' = pointsMap (ensureNode (ensureNode st k1 (seg_start seg)) k2 (seg_end seg))"
proof -
  let ?st1 = "ensureNode st k1 (seg_start seg)"
  let ?st2 = "ensureNode ?st1 k2 (seg_end seg)"
  have m1: "map_of (graph ?st1) = m(k1 \<mapsto> s1)"
    by (auto simp: ensureNode_props nodes_dom m_def s1_def fun_eq_iff split: option.splits)
  have n1: "nodes (graph ?st1) = insert k1 (nodes (graph st))"
    by (simp add: nodes_dom m1) (simp add: m_def)
  have m2: "map_of (graph ?st2) = m(k1 \<mapsto> s1, k2 \<mapsto> (if k2 = k1 then s1 else s2))"
    by (auto simp: ensureNode_props(2) [of ?st1] n1 m1 nodes_dom m_def s2_def fun_eq_iff
        split: option.splits)
  have f2: "map fst (graph ?st2) = map fst (graph st) @ (if k1 \<in> nodes (graph st) then [] else [k1])
            @ (if k2 \<in> insert k1 (nodes (graph st)) then [] else [k2])"
    by (simp add: ensureNode_props(1) [of ?st1] n1) (simp add: ensureNode_props(1))
  have l1: "map_of (graph ?st2) k1 = Some s1" by (simp add: m2)
  from graphAdd_props [OF l1, of k2] obtain g1 where
    g1: "graphAdd (graph ?st2) k1 k2 = Inr g1" "map fst g1 = map fst (graph ?st2)"
      "map_of g1 = (map_of (graph ?st2))(k1 \<mapsto> setAdd k2 s1)"
    by blast
  have l2: "map_of g1 k2 = Some (if k2 = k1 then setAdd k2 s1 else s2)"
    by (simp add: g1(3) m2)
  from graphAdd_props [OF l2, of k1] obtain g2 where
    g2: "graphAdd g1 k2 k1 = Inr g2" "map fst g2 = map fst g1"
      "map_of g2 = (map_of g1)(k2 \<mapsto> setAdd k1 (if k2 = k1 then setAdd k2 s1 else s2))"
    by blast
  show ?thesis
  proof (rule that [of "?st2\<lparr>graph := g2\<rparr>"])
    show "addSegment st seg = Inr (?st2\<lparr>graph := g2\<rparr>)"
      using g1(1) g2(1) by (simp add: addSegment_def Let_def k1_def k2_def)
    show "map fst (graph (?st2\<lparr>graph := g2\<rparr>)) = map fst (graph st) @ (if k1 \<in> nodes (graph st) then [] else [k1])
            @ (if k2 \<in> insert k1 (nodes (graph st)) then [] else [k2])"
      using f2 g1(2) g2(2) by simp
    show "map_of (graph (?st2\<lparr>graph := g2\<rparr>)) =
           (if k1 = k2 then m(k1 \<mapsto> setAdd k1 s1)
            else m(k1 \<mapsto> setAdd k2 s1, k2 \<mapsto> setAdd k1 s2))"
      by (auto simp: g2(3) g1(3) m2 fun_eq_iff setAdd_def)
    show "pointsMap (?st2\<lparr>graph := g2\<rparr>) = pointsMap ?st2" by simp
  qed
qed

lemma graphInvD:
  assumes "graphInv st"
  shows "distinct (map fst (graph st))"
    and "map_of (graph st) k = Some s \<Longrightarrow> distinct s"
    and "map_of (graph st) k = Some s \<Longrightarrow> set s \<subseteq> nodes (graph st)"
    and "b \<in> adjacent (graph st) a \<Longrightarrow> a \<in> adjacent (graph st) b"
    and "dom (pointsMap st) = nodes (graph st)"
    and "pointsMap st k = Some p \<Longrightarrow> pointKey p = k"
  using assms unfolding graphInv_def by blast+

lemma addSegment_step:
  obtains st' where "addSegment st seg = Inr st'"
    and "nodes (graph st') = insert (fst (segKeys seg)) (insert (snd (segKeys seg)) (nodes (graph st)))"
    and "\<And>a. adjacent (graph st') a = adjacent (graph st) a
            \<union> (if a = fst (segKeys seg) then {snd (segKeys seg)} else {})
            \<union> (if a = snd (segKeys seg) then {fst (segKeys seg)} else {})"
    and "graphInv st \<Longrightarrow> graphInv st'"
    and "\<And>k p. pointsMap st' k = Some p \<Longrightarrow>
            pointsMap st k = Some p \<or> (k \<notin> nodes (graph st) \<and> pointKey p = k \<and> p \<in> {seg_start seg, seg_end seg})"
    and "\<And>k p. pointsMap st k = Some p \<Longrightarrow> k \<in> nodes (graph st) \<Longrightarrow> pointsMap st' k = Some p"
    and "dom (pointsMap st') = dom (pointsMap st) \<union> ({fst (segKeys seg), snd (segKeys seg)} - nodes (graph st))"
proof -
  define k1 where "k1 = pointKey (seg_start seg)"
  define k2 where "k2 = pointKey (seg_end seg)"
  define m where "m = map_of (graph st)"
  define s1 where "s1 = (case m k1 of None \<Rightarrow> [] | Some s \<Rightarrow> s)"
  define s2 where "s2 = (case m k2 of None \<Rightarrow> [] | Some s \<Rightarrow> s)"
  note defs = k1_def k2_def m_def s1_def s2_def
  obtain st' where st': "addSegment st seg = Inr st'"
    and keys: "map fst (graph st') = map fst (graph st) @ (if k1 \<in> nodes (graph st) then [] else [k1])
            @ (if k2 \<in> insert k1 (nodes (graph st)) then [] else [k2])"
    and mp: "map_of (graph st') =
           (if k1 = k2 then m(k1 \<mapsto> setAdd k1 s1)
            else m(k1 \<mapsto> setAdd k2 s1, k2 \<mapsto> setAdd k1 s2))"
    and pm: "pointsMap st' = pointsMap (ensureNode (ensureNode st k1 (seg_start seg)) k2 (seg_end seg))"
    unfolding defs by (rule addSegment_explicit)
  have sk: "segKeys seg = (k1, k2)" by (simp add: segKeys_def k1_def k2_def)
  have n1: "nodes (graph (ensureNode st k1 (seg_start seg))) = insert k1 (nodes (graph st))"
    by (auto simp: nodes_dom ensureNode_props(2))
  have pm': "pointsMap st' = (\<lambda>k. if k \<in> nodes (graph st) then pointsMap st k
                else if k = k1 then Some (seg_start seg)
                else if k = k2 then Some (seg_end seg) else pointsMap st k)"
    by (auto simp: pm ensureNode_props(3) n1 fun_eq_iff)
  have nd: "nodes (graph st') = insert k1 (insert k2 (nodes (graph st)))"
    by (auto simp: nodes_dom mp m_def)
  have s1: "set s1 = adjacent (graph st) k1" and s2: "set s2 = adjacent (graph st) k2"
    by (simp_all add: s1_def s2_def adjacent_def m_def split: option.splits)
  have adj: "adjacent (graph st') a = adjacent (graph st) a
            \<union> (if a = k1 then {k2} else {}) \<union> (if a = k2 then {k1} else {})" for a
    using s1 s2 by (auto simp: adjacent_def mp m_def split: option.splits if_splits)
  have inv: "graphInv st'" if I: "graphInv st"
  proof -
    from I have I1: "distinct (map fst (graph st))"
      and I2: "\<And>k s. m k = Some s \<Longrightarrow> distinct s \<and> set s \<subseteq> nodes (graph st)"
      and I3: "\<And>a b. b \<in> adjacent (graph st) a \<Longrightarrow> a \<in> adjacent (graph st) b"
      and I4: "dom (pointsMap st) = nodes (graph st)"
      and I5: "\<And>k p. pointsMap st k = Some p \<Longrightarrow> pointKey p = k"
      unfolding graphInv_def m_def by blast+
    have "distinct s1 \<and> set s1 \<subseteq> nodes (graph st)"
      by (cases "m k1") (use I2 [of k1] in \<open>simp_all add: s1_def\<close>)
    then have d1: "distinct s1" and sub1: "set s1 \<subseteq> nodes (graph st)" by simp_all
    have "distinct s2 \<and> set s2 \<subseteq> nodes (graph st)"
      by (cases "m k2") (use I2 [of k2] in \<open>simp_all add: s2_def\<close>)
    then have d2: "distinct s2" and sub2: "set s2 \<subseteq> nodes (graph st)" by simp_all
    have c1: "distinct (map fst (graph st'))"
      using I1 by (auto simp: keys nodes_def)
    have c2: "distinct s \<and> set s \<subseteq> nodes (graph st')" if "map_of (graph st') k = Some s" for k s
    proof (cases "k = k1 \<or> k = k2")
      case True
      then have "s = setAdd k2 s1 \<or> s = setAdd k1 s2 \<or> s = setAdd k1 s1"
        using that unfolding mp by (auto split: if_splits)
      then show ?thesis using d1 d2 sub1 sub2 unfolding nd by auto
    next
      case False
      then have "m k = Some s" using that unfolding mp by (auto split: if_splits)
      from I2 [OF this] show ?thesis unfolding nd by auto
    qed
    have c3: "a \<in> adjacent (graph st') b" if "b \<in> adjacent (graph st') a" for a b
      using that I3 [of b a] unfolding adj by (auto split: if_splits)
    have c4: "dom (pointsMap st') = nodes (graph st')"
    proof -
      have "nodes (graph st) = dom (pointsMap st)" using I4 by simp
      then show ?thesis unfolding nd pm' by (auto split: if_splits)
    qed
    have c5: "pointKey p = k" if "pointsMap st' k = Some p" for k p
      using that I5 [of k p] unfolding pm' by (auto simp: k1_def k2_def split: if_splits)
    show ?thesis unfolding graphInv_def using c1 c2 c3 c4 c5 by blast
  qed
  show ?thesis
  proof (rule that [of st'])
    show "addSegment st seg = Inr st'" by (rule st')
    show "nodes (graph st') = insert (fst (segKeys seg)) (insert (snd (segKeys seg)) (nodes (graph st)))"
      by (simp add: sk nd)
    show "adjacent (graph st') a = adjacent (graph st) a
            \<union> (if a = fst (segKeys seg) then {snd (segKeys seg)} else {})
            \<union> (if a = snd (segKeys seg) then {fst (segKeys seg)} else {})" for a
      by (simp add: sk adj)
    show "graphInv st \<Longrightarrow> graphInv st'" by (rule inv)
    show "pointsMap st k = Some p \<or> (k \<notin> nodes (graph st) \<and> pointKey p = k \<and> p \<in> {seg_start seg, seg_end seg})"
      if "pointsMap st' k = Some p" for k p
      using that unfolding pm' by (auto simp: k1_def k2_def split: if_splits)
    show "pointsMap st' k = Some p" if "pointsMap st k = Some p" "k \<in> nodes (graph st)" for k p
      using that unfolding pm' by simp
    show "dom (pointsMap st') = dom (pointsMap st) \<union> ({fst (segKeys seg), snd (segKeys seg)} - nodes (graph st))"
      unfolding pm' sk by (auto split: if_splits)
  qed
qed

lemma keyEdges_Cons:
  "keyEdges (seg # segs) = {segKeys seg, prod.swap (segKeys seg)} \<union> keyEdges segs"
  by (auto simp: keyEdges_def)

lemma endpoints_Cons: "endpoints (seg # segs) = {seg_start seg, seg_end seg} \<union> endpoints segs"
  by (auto simp: endpoints_def)

lemma buildFrom_append:
  "buildFrom st (xs @ ys) =
     (case buildFrom st xs of Inl e \<Rightarrow> Inl e | Inr st' \<Rightarrow> buildFrom st' ys)"
  by (induction xs arbitrary: st) (auto split: sum.splits)

lemma buildFrom_ex:
  "\<exists>st'. buildFrom st segs = Inr st' \<and>
     nodes (graph st') = nodes (graph st) \<union> pointKey ` endpoints segs \<and>
     (\<forall>a. adjacent (graph st') a = adjacent (graph st) a \<union> {b. (a, b) \<in> keyEdges segs}) \<and>
     (graphInv st \<longrightarrow> graphInv st') \<and>
     (\<forall>k p. pointsMap st' k = Some p \<longrightarrow>
        pointsMap st k = Some p \<or> (pointKey p = k \<and> p \<in> endpoints segs))"
proof (induction segs arbitrary: st)
  case Nil
  show ?case by (simp add: endpoints_def keyEdges_def)
next
  case (Cons seg segs)
  obtain st1 where a: "addSegment st seg = Inr st1"
    and n: "nodes (graph st1) = insert (fst (segKeys seg)) (insert (snd (segKeys seg)) (nodes (graph st)))"
    and adj: "\<And>a. adjacent (graph st1) a = adjacent (graph st) a
            \<union> (if a = fst (segKeys seg) then {snd (segKeys seg)} else {})
            \<union> (if a = snd (segKeys seg) then {fst (segKeys seg)} else {})"
    and inv: "graphInv st \<Longrightarrow> graphInv st1"
    and pm: "\<And>k p. pointsMap st1 k = Some p \<Longrightarrow>
            pointsMap st k = Some p \<or> (k \<notin> nodes (graph st) \<and> pointKey p = k \<and> p \<in> {seg_start seg, seg_end seg})"
    by (rule addSegment_step [of st seg]) blast
  from Cons.IH [of st1] obtain st' where b: "buildFrom st1 segs = Inr st'"
    and n': "nodes (graph st') = nodes (graph st1) \<union> pointKey ` endpoints segs"
    and adj': "\<And>a. adjacent (graph st') a = adjacent (graph st1) a \<union> {b. (a, b) \<in> keyEdges segs}"
    and inv': "graphInv st1 \<Longrightarrow> graphInv st'"
    and pm': "\<And>k p. pointsMap st' k = Some p \<Longrightarrow>
        pointsMap st1 k = Some p \<or> (pointKey p = k \<and> p \<in> endpoints segs)"
    by blast
  have 1: "buildFrom st (seg # segs) = Inr st'" using a b by simp
  have 2: "nodes (graph st') = nodes (graph st) \<union> pointKey ` endpoints (seg # segs)"
    unfolding n' n endpoints_Cons by (auto simp: segKeys_def)
  have 3: "adjacent (graph st') a = adjacent (graph st) a \<union> {b. (a, b) \<in> keyEdges (seg # segs)}" for a
    unfolding adj' adj keyEdges_Cons by (cases "segKeys seg") auto
  have 4: "graphInv st \<longrightarrow> graphInv st'" using inv inv' by blast
  have 5: "pointsMap st k = Some p \<or> (pointKey p = k \<and> p \<in> endpoints (seg # segs))"
    if "pointsMap st' k = Some p" for k p
    using pm' [OF that] pm [of k p] unfolding endpoints_Cons by blast
  show ?case using 1 2 3 4 5 by blast
qed

lemma graphInv_empty: "graphInv \<lparr>graph = [], pointsMap = Map.empty\<rparr>"
  by (simp add: graphInv_def nodes_def adjacent_def)

lemma buildGraph_props:
  obtains st where "buildGraph segs = Inr st"
    and "graphInv st"
    and "nodes (graph st) = pointKey ` endpoints segs"
    and "\<And>a. adjacent (graph st) a = {b. (a, b) \<in> keyEdges segs}"
    and "\<And>k p. pointsMap st k = Some p \<Longrightarrow> pointKey p = k \<and> p \<in> endpoints segs"
proof -
  let ?st0 = "\<lparr>graph = [], pointsMap = Map.empty\<rparr>"
  from buildFrom_ex [of ?st0 segs] obtain st where b: "buildFrom ?st0 segs = Inr st"
    and n: "nodes (graph st) = nodes (graph ?st0) \<union> pointKey ` endpoints segs"
    and adj: "\<And>a. adjacent (graph st) a = adjacent (graph ?st0) a \<union> {b. (a, b) \<in> keyEdges segs}"
    and inv: "graphInv ?st0 \<longrightarrow> graphInv st"
    and pm: "\<And>k p. pointsMap st k = Some p \<Longrightarrow>
        pointsMap ?st0 k = Some p \<or> (pointKey p = k \<and> p \<in> endpoints segs)"
    by blast
  show ?thesis
  proof (rule that [of st])
    show "buildGraph segs = Inr st" using b by (simp add: buildGraph_def)
    show "graphInv st" using inv graphInv_empty by blast
    show "nodes (graph st) = pointKey ` endpoints segs" using n by (simp add: nodes_def)
    show "adjacent (graph st) a = {b. (a, b) \<in> keyEdges segs}" for a
      using adj [of a] by (simp add: adjacent_def)
    show "pointKey p = k \<and> p \<in> endpoints segs" if "pointsMap st k = Some p" for k p
      using pm [OF that] by simp
  qed
qed

lemma addSegment_known_edge:
  assumes inv: "graphInv st" and e: "snd (segKeys seg) \<in> adjacent (graph st) (fst (segKeys seg))"
  shows "addSegment st seg = Inr st"
proof -
  define k1 where "k1 = pointKey (seg_start seg)"
  define k2 where "k2 = pointKey (seg_end seg)"
  have e1: "k2 \<in> adjacent (graph st) k1" using e by (simp add: segKeys_def k1_def k2_def)
  then have e2: "k1 \<in> adjacent (graph st) k2" using inv by (rule graphInvD(4) [rotated])
  from e1 obtain s1 where s1: "map_of (graph st) k1 = Some s1" "k2 \<in> set s1"
    by (auto simp: adjacent_def split: option.splits)
  from e2 obtain s2 where s2: "map_of (graph st) k2 = Some s2" "k1 \<in> set s2"
    by (auto simp: adjacent_def split: option.splits)
  have d: "distinct (map fst (graph st))" using inv by (rule graphInvD(1))
  have n1: "ensureNode st k1 (seg_start seg) = st" using s1 by (simp add: ensureNode_def)
  have n2: "ensureNode st k2 (seg_end seg) = st" using s2 by (simp add: ensureNode_def)
  have g1: "graphAdd (graph st) k1 k2 = Inr (graph st)"
    using adjust_ident [OF d s1(1), of "setAdd k2"] s1 by (simp add: graphAdd_Some setAdd_member)
  have g2: "graphAdd (graph st) k2 k1 = Inr (graph st)"
    using adjust_ident [OF d s2(1), of "setAdd k1"] s2 by (simp add: graphAdd_Some setAdd_member)
  show ?thesis
    using n1 n2 g1 g2 by (simp add: addSegment_def Let_def k1_def [symmetric] k2_def [symmetric])
qed

lemma buildGraph_drop_duplicate:
  assumes "s \<in> set xs" and "sameNodes d s"
  shows "buildGraph (xs @ d # ys) = buildGraph (xs @ ys)"
proof -
  obtain st where b: "buildGraph xs = Inr st" and inv: "graphInv st"
    and adj: "\<And>a. adjacent (graph st) a = {b. (a, b) \<in> keyEdges xs}"
    by (rule buildGraph_props [of xs]) blast
  have "segKeys d \<in> keyEdges xs"
    using assms by (auto simp: sameNodes_def keyEdges_def)
  then have "snd (segKeys d) \<in> adjacent (graph st) (fst (segKeys d))"
    by (simp add: adj)
  from addSegment_known_edge [OF inv this] show ?thesis
    using b by (simp add: buildGraph_def buildFrom_append)
qed

lemma adjacent_Some: "map_of g k = Some s \<Longrightarrow> adjacent g k = set s"
  by (simp add: adjacent_def)

lemma traverse_invariant:
  assumes "\<forall>k s. map_of g k = Some s \<longrightarrow> set s \<subseteq> nodes g"
    and "V = V0 \<union> set cs" and "distinct cs" and "set cs \<inter> V0 = {}"
    and "set stack \<subseteq> nodes g" and "set cs \<subseteq> R" and "set stack \<subseteq> R"
    and "\<forall>a\<in>R. adjacent g a \<subseteq> R"
    and "\<forall>a\<in>set cs. adjacent g a \<subseteq> V \<union> set stack"
  shows "\<exists>cs'. traverse g V cs stack = Inr (V0 \<union> set cs', cs') \<and> distinct cs' \<and>
           set cs' \<inter> V0 = {} \<and> set cs' \<subseteq> R \<and>
           (\<forall>a\<in>set cs'. adjacent g a \<subseteq> V0 \<union> set cs') \<and>
           set cs \<union> (set stack - V0) \<subseteq> set cs'"
  using assms
proof (induction g V cs stack rule: traverse.induct)
  case (1 g visited compKeys)
  then show ?case by auto
next
  case (2 g visited compKeys current stack)
  show ?case
  proof (cases "current \<in> visited")
    case True
    have "\<forall>a\<in>set compKeys. adjacent g a \<subseteq> visited \<union> set stack"
      using "2.prems"(9) True by auto
    with "2.IH"(1) [OF True "2.prems"(1-4)] "2.prems"(5-8)
    obtain cs' where r: "traverse g visited compKeys stack = Inr (V0 \<union> set cs', cs')"
      "distinct cs'" "set cs' \<inter> V0 = {}" "set cs' \<subseteq> R"
      "\<forall>a\<in>set cs'. adjacent g a \<subseteq> V0 \<union> set cs'"
      "set compKeys \<union> (set stack - V0) \<subseteq> set cs'"
      by auto
    have "current \<in> V0 \<or> current \<in> set compKeys" using True "2.prems"(2) by auto
    then have "set compKeys \<union> (set (current # stack) - V0) \<subseteq> set cs'"
      using r(6) by auto
    with r True show ?thesis by auto
  next
    case False
    from "2.prems"(5) have "current \<in> nodes g" by simp
    then obtain adj where adj: "map_of g current = Some adj"
      by (auto simp: nodes_dom)
    let ?V = "insert current visited"
    let ?cs = "compKeys @ [current]"
    let ?st = "rev (filter (\<lambda>neighbor. neighbor \<notin> ?V) adj) @ stack"
    have sub: "set adj \<subseteq> nodes g" using "2.prems"(1) adj by blast
    have cR: "current \<in> R" using "2.prems"(7) by simp
    then have adjR: "set adj \<subseteq> R" using "2.prems"(8) adjacent_Some [OF adj] by blast
    have p2: "?V = V0 \<union> set ?cs" using "2.prems"(2) by auto
    have p3: "distinct ?cs" using "2.prems"(2,3) False by auto
    have p4: "set ?cs \<inter> V0 = {}" using "2.prems"(2,4) False by auto
    have p5: "set ?st \<subseteq> nodes g" using "2.prems"(5) sub by auto
    have p6: "set ?cs \<subseteq> R" using "2.prems"(6) cR by auto
    have p7: "set ?st \<subseteq> R" using "2.prems"(7) adjR by auto
    have p9: "\<forall>a\<in>set ?cs. adjacent g a \<subseteq> ?V \<union> set ?st"
    proof
      fix a assume "a \<in> set ?cs"
      then consider "a \<in> set compKeys" | "a = current" by auto
      then show "adjacent g a \<subseteq> ?V \<union> set ?st"
      proof cases
        case 1
        with "2.prems"(9) have "adjacent g a \<subseteq> visited \<union> set (current # stack)" by blast
        then show ?thesis by auto
      next
        case 2
        then show ?thesis by (auto simp: adjacent_Some [OF adj])
      qed
    qed
    from "2.IH"(2) [OF False adj "2.prems"(1) p2 p3 p4 p5 p6 p7 "2.prems"(8) p9]
    obtain cs' where r: "traverse g ?V ?cs ?st = Inr (V0 \<union> set cs', cs')"
      "distinct cs'" "set cs' \<inter> V0 = {}" "set cs' \<subseteq> R"
      "\<forall>a\<in>set cs'. adjacent g a \<subseteq> V0 \<union> set cs'"
      "set ?cs \<union> (set ?st - V0) \<subseteq> set cs'"
      by auto
    have "set compKeys \<union> (set (current # stack) - V0) \<subseteq> set cs'"
      using r(6) by auto
    with r(1-5) False adj show ?thesis by auto
  qed
qed

lemma graphInv_graphClosed: "graphInv st \<Longrightarrow> graphClosed (graph st)"
  unfolding graphInv_def graphClosed_def by blast

lemma reachable_self: "k \<in> reachable g k"
  by (simp add: reachable_def)

lemma reachable_step: "a \<in> reachable g k \<Longrightarrow> b \<in> adjacent g a \<Longrightarrow> b \<in> reachable g k"
  unfolding reachable_def edges_def by (auto intro: rtrancl_into_rtrancl)

lemma reachable_least:
  assumes "k \<in> C" and "\<forall>a\<in>C. adjacent g a \<subseteq> C"
  shows "reachable g k \<subseteq> C"
proof
  fix b assume "b \<in> reachable g k"
  then have "(k, b) \<in> (edges g)\<^sup>*" by (simp add: reachable_def)
  then show "b \<in> C"
    by (induction rule: rtrancl_induct) (use assms in \<open>auto simp: edges_def\<close>)
qed

lemma sym_edges: "graphClosed g \<Longrightarrow> sym (edges g)"
  unfolding graphClosed_def edges_def sym_def by blast

lemma reachable_sym:
  assumes "graphClosed g" and "b \<in> reachable g a"
  shows "a \<in> reachable g b"
proof -
  from assms(2) have "(a, b) \<in> (edges g)\<^sup>*" by (simp add: reachable_def)
  then have "(b, a) \<in> ((edges g)\<inverse>)\<^sup>*" by (simp add: rtrancl_converse)
  moreover have "(edges g)\<inverse> = edges g" using sym_edges [OF assms(1)] by (simp add: sym_conv_converse_eq)
  ultimately show ?thesis by (simp add: reachable_def)
qed

lemma reachable_trans: "b \<in> reachable g a \<Longrightarrow> c \<in> reachable g b \<Longrightarrow> c \<in> reachable g a"
  unfolding reachable_def by auto

lemma reachable_eq:
  assumes "graphClosed g" and "b \<in> reachable g a"
  shows "reachable g b = reachable g a"
  using assms reachable_sym [OF assms] by (auto intro: reachable_trans)

lemma reachable_nodes:
  assumes "graphClosed g" and "k \<in> nodes g"
  shows "reachable g k \<subseteq> nodes g"
proof (rule reachable_least [OF assms(2)])
  have "\<And>k s. map_of g k = Some s \<Longrightarrow> set s \<subseteq> nodes g"
    using assms(1) unfolding graphClosed_def by blast
  then show "\<forall>a\<in>nodes g. adjacent g a \<subseteq> nodes g"
    unfolding adjacent_def by (auto split: option.splits)
qed

lemma traverse_component:
  assumes gc: "graphClosed g" and V0: "\<forall>a\<in>V0. adjacent g a \<subseteq> V0"
    and k: "k \<in> nodes g" "k \<notin> V0"
  shows "\<exists>cs. traverse g V0 [] [k] = Inr (V0 \<union> set cs, cs) \<and> distinct cs \<and>
           set cs = reachable g k \<and> set cs \<inter> V0 = {}"
proof -
  have c1: "\<forall>k s. map_of g k = Some s \<longrightarrow> set s \<subseteq> nodes g"
    using gc unfolding graphClosed_def by blast
  have sy: "\<And>a b. b \<in> adjacent g a \<Longrightarrow> a \<in> adjacent g b"
    using gc unfolding graphClosed_def by blast
  have "\<exists>cs'. traverse g V0 [] [k] = Inr (V0 \<union> set cs', cs') \<and> distinct cs' \<and>
           set cs' \<inter> V0 = {} \<and> set cs' \<subseteq> reachable g k \<and>
           (\<forall>a\<in>set cs'. adjacent g a \<subseteq> V0 \<union> set cs') \<and>
           set [] \<union> (set [k] - V0) \<subseteq> set cs'"
    by (rule traverse_invariant [OF c1])
       (use k in \<open>auto simp: reachable_self intro: reachable_step\<close>)
  then obtain cs where r: "traverse g V0 [] [k] = Inr (V0 \<union> set cs, cs)" "distinct cs"
    "set cs \<inter> V0 = {}" "set cs \<subseteq> reachable g k"
    "\<forall>a\<in>set cs. adjacent g a \<subseteq> V0 \<union> set cs" "k \<in> set cs"
    using k(2) by auto
  have "\<forall>a\<in>set cs. adjacent g a \<subseteq> set cs"
  proof (intro ballI subsetI)
    fix a b assume a: "a \<in> set cs" and b: "b \<in> adjacent g a"
    show "b \<in> set cs"
    proof (rule ccontr)
      assume "b \<notin> set cs"
      with r(5) a b have "b \<in> V0" by blast
      with V0 sy [OF b] have "a \<in> V0" by blast
      with r(3) a show False by blast
    qed
  qed
  from reachable_least [OF r(6) this] r show ?thesis by blast
qed

lemma componentsLoop_invariant:
  assumes "graphClosed g"
    and "set keys \<subseteq> nodes g"
    and "V = \<Union>(set ` set comps)"
    and "\<forall>a\<in>V. adjacent g a \<subseteq> V"
    and "distinct (concat comps)"
    and "\<forall>c\<in>set comps. \<exists>k\<in>nodes g. set c = reachable g k"
  shows "\<exists>comps'. componentsLoop g keys V comps = Inr comps' \<and> distinct (concat comps') \<and>
           (\<forall>c\<in>set comps'. \<exists>k\<in>nodes g. set c = reachable g k) \<and>
           V \<union> set keys \<subseteq> \<Union>(set ` set comps')"
  using assms(2-)
proof (induction keys arbitrary: V comps)
  case Nil
  then show ?case by simp
next
  case (Cons key keys)
  show ?case
  proof (cases "key \<in> V")
    case True
    have "set keys \<subseteq> nodes g" using Cons.prems(1) by simp
    from Cons.IH [OF this Cons.prems(2-5)]
    obtain comps' where r: "componentsLoop g keys V comps = Inr comps'"
      "distinct (concat comps')" "\<forall>c\<in>set comps'. \<exists>k\<in>nodes g. set c = reachable g k"
      "V \<union> set keys \<subseteq> \<Union>(set ` set comps')"
      by blast
    have "V \<union> set (key # keys) \<subseteq> \<Union>(set ` set comps')" using r(4) True by auto
    with r(1-3) True show ?thesis by auto
  next
    case False
    from Cons.prems(1) have kn: "key \<in> nodes g" by simp
    from traverse_component [OF assms(1) Cons.prems(3) kn False]
    obtain cs where t: "traverse g V [] [key] = Inr (V \<union> set cs, cs)" "distinct cs"
      "set cs = reachable g key" "set cs \<inter> V = {}"
      by blast
    let ?V = "V \<union> set cs" and ?comps = "comps @ [cs]"
    have a1: "set keys \<subseteq> nodes g" using Cons.prems(1) by simp
    have a2: "?V = \<Union>(set ` set ?comps)" using Cons.prems(2) by auto
    have a3: "\<forall>a\<in>?V. adjacent g a \<subseteq> ?V"
      using Cons.prems(3) t(3) by (auto intro: reachable_step)
    have a4: "distinct (concat ?comps)"
      using Cons.prems(2,4) t(2,4) by auto
    have a5: "\<forall>c\<in>set ?comps. \<exists>k\<in>nodes g. set c = reachable g k"
      using Cons.prems(5) t(3) kn by auto
    from Cons.IH [OF a1 a2 a3 a4 a5]
    obtain comps' where r: "componentsLoop g keys ?V ?comps = Inr comps'"
      "distinct (concat comps')" "\<forall>c\<in>set comps'. \<exists>k\<in>nodes g. set c = reachable g k"
      "?V \<union> set keys \<subseteq> \<Union>(set ` set comps')"
      by blast
    have "key \<in> set cs" using t(3) by (simp add: reachable_self)
    then have "V \<union> set (key # keys) \<subseteq> \<Union>(set ` set comps')" using r(4) by auto
    with r(1-3) t(1) False show ?thesis by auto
  qed
qed

lemma findComponents_correct:
  assumes "graphClosed g"
  shows "\<exists>comps. findComponents g = Inr comps \<and> distinct (concat comps) \<and>
           set ` set comps = reachable g ` nodes g"
proof -
  have "\<exists>comps'. componentsLoop g (map fst g) {} [] = Inr comps' \<and> distinct (concat comps') \<and>
           (\<forall>c\<in>set comps'. \<exists>k\<in>nodes g. set c = reachable g k) \<and>
           {} \<union> set (map fst g) \<subseteq> \<Union>(set ` set comps')"
    by (rule componentsLoop_invariant [OF assms]) (simp_all add: nodes_def)
  then obtain comps where r: "findComponents g = Inr comps" "distinct (concat comps)"
    "\<forall>c\<in>set comps. \<exists>k\<in>nodes g. set c = reachable g k"
    "nodes g \<subseteq> \<Union>(set ` set comps)"
    by (auto simp: findComponents_def nodes_def)
  have "set ` set comps = reachable g ` nodes g"
  proof (intro equalityI subsetI)
    fix C assume "C \<in> set ` set comps"
    with r(3) show "C \<in> reachable g ` nodes g" by auto
  next
    fix C assume "C \<in> reachable g ` nodes g"
    then obtain k where k: "k \<in> nodes g" "C = reachable g k" by auto
    with r(4) obtain c where c: "c \<in> set comps" "k \<in> set c" by auto
    with r(3) obtain k0 where "set c = reachable g k0" by auto
    with c(2) reachable_eq [OF assms, of k k0] k(2) have "set c = C" by simp
    with c(1) show "C \<in> set ` set comps" by auto
  qed
  with r(1,2) show ?thesis by blast
qed

section \<open>Components and their contributions\<close>

lemma everySizeTwo_eq:
  assumes "\<forall>k\<in>set c. \<exists>s. map_of g k = Some s \<and> distinct s"
  shows "everySizeTwo g c = Inr (\<forall>k\<in>set c. card (adjacent g k) = 2)"
  using assms
proof (induction c)
  case Nil
  then show ?case by simp
next
  case (Cons k c)
  then obtain s where s: "map_of g k = Some s" "distinct s" by auto
  then have "card (adjacent g k) = length s"
    by (simp add: adjacent_Some distinct_card)
  with Cons s show ?case by auto
qed

lemma lookupPoints_eq:
  assumes "set c \<subseteq> dom pm"
  shows "\<exists>ps. lookupPoints pm c = Inr ps \<and> list_all2 (\<lambda>k p. pm k = Some p) c ps"
  using assms by (induction c) auto

lemma foldl_point_sum:
  "foldl (\<lambda>acc pt. \<lparr>pt_x = pt_x acc + pt_x pt, pt_y = pt_y acc + pt_y pt\<rparr>) a pts =
     \<lparr>pt_x = pt_x a + sum_list (map pt_x pts), pt_y = pt_y a + sum_list (map pt_y pts)\<rparr>"
  by (induction pts arbitrary: a) (simp_all add: add.assoc)

lemma centroidOf_meanPoint: "centroidOf pts = meanPoint pts"
  by (simp add: centroidOf_def meanPoint_def foldl_point_sum)

lemma sortByAngle_angleSorted: "angleSorted pts (sortByAngle pts)"
proof -
  have "(\<lambda>v. atan2 (pt_y v - pt_y (meanPoint pts)) (pt_x v - pt_x (meanPoint pts)))
          = angleAround (centroidOf pts)"
    by (simp add: fun_eq_iff angleAround_def centroidOf_meanPoint)
  then show ?thesis by (simp add: angleSorted_def sortByAngle_def)
qed

lemma componentContribution_spec:
  assumes inv: "graphInv st" and c: "set c \<subseteq> nodes (graph st)" "distinct c"
  shows "\<exists>r. componentContribution (graph st) (pointsMap st) c = Inr r \<and>
           specContribution (graph st) (pointsMap st) c r"
proof -
  let ?g = "graph st" and ?pm = "pointsMap st"
  have "\<forall>k\<in>set c. \<exists>s. map_of ?g k = Some s \<and> distinct s"
  proof
    fix k assume "k \<in> set c"
    with c(1) obtain s where s: "map_of ?g k = Some s" by (auto simp: nodes_dom)
    with graphInvD(2) [OF inv s] show "\<exists>s. map_of ?g k = Some s \<and> distinct s" by simp
  qed
  then have e: "everySizeTwo ?g c = Inr (\<forall>k\<in>set c. card (adjacent ?g k) = 2)"
    by (rule everySizeTwo_eq)
  have len: "length c = card (set c)" using c(2) by (simp add: distinct_card)
  show ?thesis
  proof (cases "closedLoop ?g (set c)")
    case True
    have "set c \<subseteq> dom ?pm" using c(1) graphInvD(5) [OF inv] by simp
    from lookupPoints_eq [OF this] obtain ps where
      ps: "lookupPoints ?pm c = Inr ps" "list_all2 (\<lambda>k p. ?pm k = Some p) c ps"
      by blast
    have "componentContribution ?g ?pm c = Inr (1, calculateArea (sortByAngle ps))"
      using True e ps(1) len by (simp add: componentContribution_def closedLoop_def)
    moreover have "specContribution ?g ?pm c (1, calculateArea (sortByAngle ps))"
      using True ps(2) sortByAngle_angleSorted [of ps]
      by (auto simp: specContribution_def)
    ultimately show ?thesis by blast
  next
    case False
    then have "componentContribution ?g ?pm c = Inr (2, 0)"
      using e len by (auto simp: componentContribution_def closedLoop_def)
    moreover have "specContribution ?g ?pm c (2, 0)"
      using False by (simp add: specContribution_def)
    ultimately show ?thesis by blast
  qed
qed

lemma groupComponents_sum:
  assumes "list_all2 (\<lambda>c r. componentContribution g pm c = Inr r) comps rs"
  shows "groupComponents g pm (p, a) comps =
           Inr (p + sum_list (map fst rs), a + sum_list (map snd rs))"
  using assms
proof (induction comps rs arbitrary: p a rule: list_all2_induct)
  case Nil
  show ?case by simp
next
  case (Cons c comps r rs)
  obtain p' a' where r: "r = (p', a')" by (cases r)
  with Cons show ?case by (simp add: add.assoc)
qed

lemma components_of_built_graph:
  assumes inv: "graphInv st"
  shows "\<exists>comps rs. findComponents (graph st) = Inr comps \<and> distinct (concat comps) \<and>
           set ` set comps = reachable (graph st) ` nodes (graph st) \<and>
           list_all2 (\<lambda>c r. componentContribution (graph st) (pointsMap st) c = Inr r \<and>
                       specContribution (graph st) (pointsMap st) c r) comps rs \<and>
           groupComponents (graph st) (pointsMap st) (0, 0) comps =
             Inr (sum_list (map fst rs), sum_list (map snd rs))"
proof -
  let ?g = "graph st" and ?pm = "pointsMap st"
  have gc: "graphClosed ?g" using inv by (rule graphInv_graphClosed)
  from findComponents_correct [OF gc] obtain comps where
    f: "findComponents ?g = Inr comps" "distinct (concat comps)"
       "set ` set comps = reachable ?g ` nodes ?g"
    by blast
  have each: "\<exists>r. componentContribution ?g ?pm c = Inr r \<and> specContribution ?g ?pm c r"
    if "c \<in> set comps" for c
  proof (rule componentContribution_spec [OF inv])
    from that f(3) obtain k where "k \<in> nodes ?g" "set c = reachable ?g k" by blast
    with reachable_nodes [OF gc] show "set c \<subseteq> nodes ?g" by simp
    from that f(2) show "distinct c" by (auto simp: distinct_concat_iff)
  qed
  have "\<exists>rs. list_all2 (\<lambda>c r. componentContribution ?g ?pm c = Inr r \<and>
                       specContribution ?g ?pm c r) comps rs"
    using each
  proof (induction comps)
    case Nil
    show ?case by simp
  next
    case (Cons c comps)
    from Cons.prems [of c] obtain r where
      "componentContribution ?g ?pm c = Inr r \<and> specContribution ?g ?pm c r"
      by auto
    moreover from Cons.IH Cons.prems obtain rs where
      "list_all2 (\<lambda>c r. componentContribution ?g ?pm c = Inr r \<and>
                       specContribution ?g ?pm c r) comps rs"
      by auto
    ultimately have "list_all2 (\<lambda>c r. componentContribution ?g ?pm c = Inr r \<and>
                       specContribution ?g ?pm c r) (c # comps) (r # rs)" by simp
    then show ?case by blast
  qed
  then obtain rs where rs: "list_all2 (\<lambda>c r. componentContribution ?g ?pm c = Inr r \<and>
                       specContribution ?g ?pm c r) comps rs" by blast
  then have "list_all2 (\<lambda>c r. componentContribution ?g ?pm c = Inr r) comps rs"
    by (rule list_all2_mono) simp
  from groupComponents_sum [OF this, of 0 0]
  have "groupComponents ?g ?pm (0, 0) comps = Inr (sum_list (map fst rs), sum_list (map snd rs))"
    by simp
  with f rs show ?thesis by blast
qed

section \<open>The engine as the sum of its contributions\<close>

lemma uploadDXF_grouped:
  "uploadDXF entities =
     (case grouped (segments (normalizeEntities entities)) of
        Inl e \<Rightarrow> Inl e
      | Inr (p, a) \<Rightarrow>
          Inr \<lparr>pierceCount = independentPierceCount (normalizeEntities entities) + p,
               area = independentArea (normalizeEntities entities) + a\<rparr>)"
  by (simp add: uploadDXF_def grouped_def conversionFactor_def Let_def split: sum.splits prod.splits)

lemma grouped_total:
  obtains st comps rs where "buildGraph segs = Inr st" and "graphInv st"
    and "findComponents (graph st) = Inr comps" and "distinct (concat comps)"
    and "set ` set comps = reachable (graph st) ` nodes (graph st)"
    and "list_all2 (\<lambda>c r. componentContribution (graph st) (pointsMap st) c = Inr r \<and>
                       specContribution (graph st) (pointsMap st) c r) comps rs"
    and "grouped segs = Inr (sum_list (map fst rs), sum_list (map snd rs))"
proof -
  obtain st where st: "buildGraph segs = Inr st" "graphInv st"
    by (rule buildGraph_props [of segs]) blast
  from components_of_built_graph [OF st(2)] obtain comps rs where
    c: "findComponents (graph st) = Inr comps" "distinct (concat comps)"
       "set ` set comps = reachable (graph st) ` nodes (graph st)"
       "list_all2 (\<lambda>c r. componentContribution (graph st) (pointsMap st) c = Inr r \<and>
                       specContribution (graph st) (pointsMap st) c r) comps rs"
       "groupComponents (graph st) (pointsMap st) (0, 0) comps =
             Inr (sum_list (map fst rs), sum_list (map snd rs))"
    by blast
  have "grouped segs = Inr (sum_list (map fst rs), sum_list (map snd rs))"
    using st(1) c(1,5) by (simp add: grouped_def)
  with st c(1-4) show ?thesis by (rule that)
qed

lemma uploadDXF_total: "\<exists>r. uploadDXF entities = Inr r"
proof -
  obtain rs where "grouped (segments (normalizeEntities entities)) = Inr (sum_list (map fst rs), sum_list (map snd rs))"
    by (rule grouped_total [of "segments (normalizeEntities entities)"]) blast
  then show ?thesis by (simp add: uploadDXF_grouped)
qed

lemma processEntity_plus:
  "processEntity st e = plus_normalized st (processEntity initial e)"
  by (cases e) (simp_all add: plus_normalized_def initial_def Let_def)

lemma plus_normalized_assoc:
  "plus_normalized (plus_normalized a b) c = plus_normalized a (plus_normalized b c)"
  by (simp add: plus_normalized_def add.assoc)

lemma plus_normalized_initial [simp]:
  "plus_normalized st initial = st" "plus_normalized initial st = st"
  by (simp_all add: plus_normalized_def initial_def)

lemma foldl_processEntity:
  "foldl processEntity st es = plus_normalized st (foldl processEntity initial es)"
proof (induction es arbitrary: st)
  case Nil
  show ?case by simp
next
  case (Cons e es)
  have "foldl processEntity st (e # es) = plus_normalized (processEntity st e) (foldl processEntity initial es)"
    using Cons [of "processEntity st e"] by simp
  also have "\<dots> = plus_normalized st (plus_normalized (processEntity initial e) (foldl processEntity initial es))"
    using processEntity_plus [of st e] by (simp add: plus_normalized_assoc)
  also have "plus_normalized (processEntity initial e) (foldl processEntity initial es)
      = foldl processEntity initial (e # es)"
    using Cons [of "processEntity initial e"] by simp
  finally show ?case .
qed

lemma normalizeEntities_append:
  "normalizeEntities (es1 @ es2) = plus_normalized (normalizeEntities es1) (normalizeEntities es2)"
  using foldl_processEntity [of "normalizeEntities es1" es2]
  by (simp add: normalizeEntities_def initial_def [symmetric])

lemma normalizeEntities_Cons:
  "normalizeEntities (e # es) = plus_normalized (processEntity initial e) (normalizeEntities es)"
  using foldl_processEntity [of "processEntity initial e" es]
  by (simp add: normalizeEntities_def initial_def [symmetric])

lemma normalizeEntities_insert:
  "normalizeEntities (es1 @ e # es2) =
     \<lparr>independentPierceCount = independentPierceCount (normalizeEntities (es1 @ es2))
         + independentPierceCount (processEntity initial e),
      independentArea = independentArea (normalizeEntities (es1 @ es2))
         + independentArea (processEntity initial e),
      segments = segments (normalizeEntities es1) @ segments (processEntity initial e)
         @ segments (normalizeEntities es2)\<rparr>"
  by (simp add: normalizeEntities_append normalizeEntities_Cons plus_normalized_def)

section \<open>The engine on the unit square\<close>

lemma pt_sel [simp]: "pt_x (Pt a b) = a" "pt_y (Pt a b) = b"
  by (simp_all add: Pt_def)

lemma seg_sel [simp]: "seg_start (Seg a b) = a" "seg_end (Seg a b) = b"
  by (simp_all add: Seg_def)

lemma pt_eq [simp]: "Pt a b = Pt c d \<longleftrightarrow> a = c \<and> b = d"
  by (simp add: Pt_def)

lemma pointKey_corner [simp]:
  "pointKey (Pt 0 0) = (0, 0)" "pointKey (Pt 1 0) = (1, 0)"
  "pointKey (Pt 1 1) = (1, 1)" "pointKey (Pt 0 1) = (0, 1)"
  by (simp_all add: pointKey_def roundNumber_def)

lemma buildGraph_unitSquare:
  "buildGraph unitSquare = Inr \<lparr>graph = squareGraph, pointsMap = squarePoints\<rparr>"
  by (simp add: buildGraph_def unitSquare_def addSegment_def ensureNode_def graphAdd_def
      setAdd_def Let_def squareGraph_def squarePoints_def)

lemma findComponents_squareGraph:
  "findComponents squareGraph = Inr [[(0, 0), (0, 1), (1, 1), (1, 0)]]"
  by (simp add: findComponents_def squareGraph_def)

lemma atan2_diag:
  "atan2 (- (1 / 2)) (- (1 / 2)) = - (3 * pi / 4)"
  "atan2 (- (1 / 2)) (1 / 2) = - (pi / 4)"
  "atan2 (1 / 2) (1 / 2) = pi / 4"
  "atan2 (1 / 2) (- (1 / 2)) = 3 * pi / 4"
  by (simp_all add: atan2_def arctan_one arctan_minus)

lemma centroid_square:
  "centroidOf [Pt 0 0, Pt 0 1, Pt 1 1, Pt 1 0] = Pt (1 / 2) (1 / 2)"
  by (simp add: centroidOf_def Pt_def)

lemma sortByAngle_square:
  "sortByAngle [Pt 0 0, Pt 0 1, Pt 1 1, Pt 1 0] = [Pt 0 0, Pt 1 0, Pt 1 1, Pt 0 1]"
  by (simp add: sortByAngle_def centroid_square angleAround_def atan2_diag not_le)

lemma calculateArea_square:
  "calculateArea [Pt 0 0, Pt 1 0, Pt 1 1, Pt 0 1] = 1"
  by (simp add: calculateArea_def shoelaceTerm_def upt_rec [of 0] upt_rec [of "Suc 0"]
      upt_rec [of 2] upt_rec [of 3] upt_rec [of 4] Let_def)

lemma contribution_square:
  "componentContribution squareGraph squarePoints [(0, 0), (0, 1), (1, 1), (1, 0)] = Inr (1, 1)"
  by (simp add: componentContribution_def squareGraph_def squarePoints_def
      sortByAngle_square calculateArea_square)

lemma grouped_unitSquare: "grouped unitSquare = Inr (1, 1)"
  by (simp add: grouped_def buildGraph_unitSquare findComponents_squareGraph contribution_square)

lemma normalizeEntities_squareLines:
  "normalizeEntities squareLines =
     \<lparr>independentPierceCount = 0, independentArea = 0, segments = unitSquare\<rparr>"
  by (simp add: normalizeEntities_def squareLines_def unitSquare_def Seg_def)

lemma uploadDXF_squareLines: "uploadDXF squareLines = Inr \<lparr>pierceCount = 1, area = 1\<rparr>"
  by (simp add: uploadDXF_grouped normalizeEntities_squareLines grouped_unitSquare)

lemma endpoints_unitSquare: "endpoints unitSquare = {Pt 0 0, Pt 1 0, Pt 1 1, Pt 0 1}"
  by (auto simp: endpoints_def unitSquare_def)

section \<open>The graph, totality, polylines and the loop detector\<close>

text \<open>
  C6.  The graph the builder returns is symmetric: \<open>b\<close> is in the adjacency set of \<open>a\<close>
  exactly when \<open>a\<close> is in that of \<open>b\<close>.  Its nodes and adjacency sets are those of the
  set of key pairs the segments join, however often a pair occurs.  A segment between
  two snapped nodes that an earlier segment of the list already joins (in either
  direction) leaves the builder's whole state as it was: the list with the duplicate
  builds the same graph as the list without it.
\<close>

theorem graph_symmetric_no_multiplicity:
  "(\<exists>st. buildGraph segs = Inr st \<and>
         (\<forall>a b. b \<in> adjacent (graph st) a \<longleftrightarrow> a \<in> adjacent (graph st) b) \<and>
         nodes (graph st) = pointKey ` endpoints segs \<and>
         (\<forall>a. adjacent (graph st) a = {b. (a, b) \<in> keyEdges segs})) \<and>
   (s \<in> set xs \<and> sameNodes d s \<longrightarrow> buildGraph (xs @ d # ys) = buildGraph (xs @ ys))"
proof
  obtain st where st: "buildGraph segs = Inr st" "graphInv st"
    "nodes (graph st) = pointKey ` endpoints segs"
    "\<And>a. adjacent (graph st) a = {b. (a, b) \<in> keyEdges segs}"
    by (rule buildGraph_props [of segs]) blast
  from graphInvD(4) [OF st(2)]
  have "\<forall>a b. b \<in> adjacent (graph st) a \<longleftrightarrow> a \<in> adjacent (graph st) b" by blast
  with st(1,3,4) show "\<exists>st. buildGraph segs = Inr st \<and>
         (\<forall>a b. b \<in> adjacent (graph st) a \<longleftrightarrow> a \<in> adjacent (graph st) b) \<and>
         nodes (graph st) = pointKey ` endpoints segs \<and>
         (\<forall>a. adjacent (graph st) a = {b. (a, b) \<in> keyEdges segs})"
    by (intro exI [where x = st]) simp
  show "s \<in> set xs \<and> sameNodes d s \<longrightarrow> buildGraph (xs @ d # ys) = buildGraph (xs @ ys)"
    using buildGraph_drop_duplicate [of s xs d ys] by blast
qed

theorem graph_symmetric_no_multiplicity_witness:
  "(\<exists>st. buildGraph unitSquare = Inr st \<and>
         (\<forall>a b. b \<in> adjacent (graph st) a \<longleftrightarrow> a \<in> adjacent (graph st) b) \<and>
         nodes (graph st) = pointKey ` endpoints unitSquare \<and>
         (\<forall>a. adjacent (graph st) a = {b. (a, b) \<in> keyEdges unitSquare})) \<and>
   Seg (Pt 0 0) (Pt 1 0) \<in> set unitSquare \<and>
   sameNodes (Seg (Pt 1 0) (Pt 0 0)) (Seg (Pt 0 0) (Pt 1 0)) \<and>
   buildGraph (unitSquare @ Seg (Pt 1 0) (Pt 0 0) # []) = buildGraph (unitSquare @ []) \<and>
   buildGraph (unitSquare @ []) = Inr \<lparr>graph = squareGraph, pointsMap = squarePoints\<rparr>"
proof -
  note t = graph_symmetric_no_multiplicity
    [of unitSquare "Seg (Pt 0 0) (Pt 1 0)" unitSquare "Seg (Pt 1 0) (Pt 0 0)" "[]"]
  have 1: "Seg (Pt 0 0) (Pt 1 0) \<in> set unitSquare" by (simp add: unitSquare_def)
  have 2: "sameNodes (Seg (Pt 1 0) (Pt 0 0)) (Seg (Pt 0 0) (Pt 1 0))"
    by (simp add: sameNodes_def segKeys_def)
  from t [THEN conjunct2] 1 2
  have 3: "buildGraph (unitSquare @ Seg (Pt 1 0) (Pt 0 0) # []) = buildGraph (unitSquare @ [])"
    by (rule mp [OF _ conjI])
  have 4: "buildGraph (unitSquare @ []) = Inr \<lparr>graph = squareGraph, pointsMap = squarePoints\<rparr>"
    by (simp add: buildGraph_unitSquare)
  from t [THEN conjunct1] 1 2 3 4 show ?thesis by (intro conjI)
qed

text \<open>
  C8.  For every entity list the engine returns a result and never an error: the graph
  is built, the traversal ends, every node of the graph is visited, and none twice
  (a zero-length segment makes its node its own neighbour, which the traversal skips
  as visited).
\<close>

theorem engine_total:
  "\<exists>st comps r. buildGraph (segments (normalizeEntities entities)) = Inr st \<and>
     findComponents (graph st) = Inr comps \<and>
     distinct (concat comps) \<and> set (concat comps) = nodes (graph st) \<and>
     uploadDXF entities = Inr r"
proof -
  obtain st comps where st: "buildGraph (segments (normalizeEntities entities)) = Inr st" "graphInv st"
    and c: "findComponents (graph st) = Inr comps" "distinct (concat comps)"
      "set ` set comps = reachable (graph st) ` nodes (graph st)"
    by (rule grouped_total [of "segments (normalizeEntities entities)"]) blast
  have gc: "graphClosed (graph st)" using st(2) by (rule graphInv_graphClosed)
  have "\<Union>(set ` set comps) = nodes (graph st)"
    unfolding c(3) using reachable_nodes [OF gc] reachable_self by blast
  then have "set (concat comps) = nodes (graph st)" by simp
  with st(1) c(1,2) uploadDXF_total [of entities] show ?thesis by blast
qed

theorem engine_total_witness:
  "\<exists>st comps r. buildGraph (segments (normalizeEntities [LINE (Pt 0 0) (Pt 0 0)])) = Inr st \<and>
     findComponents (graph st) = Inr comps \<and>
     distinct (concat comps) \<and> set (concat comps) = nodes (graph st) \<and>
     uploadDXF [LINE (Pt 0 0) (Pt 0 0)] = Inr r \<and>
     graph st = [((0, 0), [(0, 0)])] \<and> comps = [[(0, 0)]] \<and> r = \<lparr>pierceCount = 2, area = 0\<rparr>"
proof -
  let ?es = "[LINE (Pt 0 0) (Pt 0 0)]"
  from engine_total [of ?es] obtain st comps r where
    a: "buildGraph (segments (normalizeEntities ?es)) = Inr st" "findComponents (graph st) = Inr comps"
       "distinct (concat comps)" "set (concat comps) = nodes (graph st)" "uploadDXF ?es = Inr r"
    by blast
  have s: "segments (normalizeEntities ?es) = [Seg (Pt 0 0) (Pt 0 0)]"
    by (simp add: normalizeEntities_def Seg_def)
  have b: "buildGraph [Seg (Pt 0 0) (Pt 0 0)] =
      Inr \<lparr>graph = [((0, 0), [(0, 0)])], pointsMap = [(0, 0) \<mapsto> Pt 0 0]\<rparr>"
    by (simp add: buildGraph_def addSegment_def ensureNode_def graphAdd_def setAdd_def Let_def)
  with a(1) s have g: "graph st = [((0, 0), [(0, 0)])]" by auto
  have f: "findComponents [((0, 0), [(0, 0)])] = Inr [[(0, 0)]]"
    by (simp add: findComponents_def)
  with a(2) g have c: "comps = [[(0, 0)]]" by simp
  have "uploadDXF ?es = Inr \<lparr>pierceCount = 2, area = 0\<rparr>"
    by (simp add: uploadDXF_def s b f componentContribution_def conversionFactor_def)
       (simp add: normalizeEntities_def)
  with a(5) have "r = \<lparr>pierceCount = 2, area = 0\<rparr>" by simp
  with a g c show ?thesis by blast
qed

lemma uploadDXF_same_segments:
  assumes "segments (normalizeEntities es') = segments (normalizeEntities es)"
    and "uploadDXF es = Inr r"
  shows "uploadDXF es' =
     Inr \<lparr>pierceCount = pierceCount r + independentPierceCount (normalizeEntities es')
              - independentPierceCount (normalizeEntities es),
          area = area r + independentArea (normalizeEntities es') - independentArea (normalizeEntities es)\<rparr>"
proof -
  obtain p a where g: "grouped (segments (normalizeEntities es)) = Inr (p, a)"
    using assms(2) by (auto simp: uploadDXF_grouped split: sum.splits)
  with assms(2) have "r = \<lparr>pierceCount = independentPierceCount (normalizeEntities es) + p,
               area = independentArea (normalizeEntities es) + a\<rparr>"
    by (simp add: uploadDXF_grouped)
  then show ?thesis using g assms(1) by (simp add: uploadDXF_grouped)
qed

text \<open>
  C5.  A polyline entity anywhere in the entity list adds no segment, and changes the
  engine's result by exactly its own contribution: pierce count 1 when it is marked
  closed or shaped and 2 when it is not, and its shoelace area when it is marked and has
  at least three vertices, zero area otherwise.
\<close>

theorem polyline_contribution:
  "\<exists>r. uploadDXF (es1 @ es2) = Inr r \<and>
     segments (normalizeEntities (es1 @ LWPOLYLINE vs c s # es2)) = segments (normalizeEntities (es1 @ es2)) \<and>
     uploadDXF (es1 @ LWPOLYLINE vs c s # es2) =
       Inr \<lparr>pierceCount = pierceCount r + (if truthy c \<or> truthy s then 1 else 2),
            area = area r + (if (truthy c \<or> truthy s) \<and> 3 \<le> length vs
                             then calculateArea vs else 0)\<rparr>"
proof -
  let ?e = "LWPOLYLINE vs c s"
  obtain r where r: "uploadDXF (es1 @ es2) = Inr r"
    using uploadDXF_total [of "es1 @ es2"] by blast
  have n: "normalizeEntities (es1 @ ?e # es2) =
     \<lparr>independentPierceCount = independentPierceCount (normalizeEntities (es1 @ es2))
         + independentPierceCount (processEntity initial ?e),
      independentArea = independentArea (normalizeEntities (es1 @ es2))
         + independentArea (processEntity initial ?e),
      segments = segments (normalizeEntities es1) @ segments (processEntity initial ?e)
         @ segments (normalizeEntities es2)\<rparr>"
    by (rule normalizeEntities_insert)
  have p: "independentPierceCount (processEntity initial ?e) = (if truthy c \<or> truthy s then 1 else 2)"
    by (simp add: initial_def Let_def)
  have a: "independentArea (processEntity initial ?e) =
      (if (truthy c \<or> truthy s) \<and> 3 \<le> length vs then calculateArea vs else 0)"
    by (auto simp: initial_def Let_def)
  have s: "segments (processEntity initial ?e) = []"
    by (simp add: initial_def Let_def)
  have seg: "segments (normalizeEntities (es1 @ ?e # es2)) = segments (normalizeEntities (es1 @ es2))"
    unfolding n s by (simp add: normalizeEntities_append plus_normalized_def)
  from uploadDXF_same_segments [OF seg r]
  have "uploadDXF (es1 @ ?e # es2) =
       Inr \<lparr>pierceCount = pierceCount r + (if truthy c \<or> truthy s then 1 else 2),
            area = area r + (if (truthy c \<or> truthy s) \<and> 3 \<le> length vs
                             then calculateArea vs else 0)\<rparr>"
    unfolding n p a by simp
  with r seg show ?thesis by blast
qed

lemma uploadDXF_Nil: "uploadDXF [] = Inr \<lparr>pierceCount = 0, area = 0\<rparr>"
  by (simp add: uploadDXF_def normalizeEntities_def buildGraph_def findComponents_def conversionFactor_def)

lemma calculateArea_triangle:
  "calculateArea [a, b, c] =
     \<bar>pt_x a * pt_y b - pt_x b * pt_y a + (pt_x b * pt_y c - pt_x c * pt_y b)
        + (pt_x c * pt_y a - pt_x a * pt_y c)\<bar> / 2"
  by (simp add: calculateArea_def shoelaceTerm_def upt_rec [of 0] upt_rec [of "Suc 0"]
      upt_rec [of 2] upt_rec [of 3] Let_def)

theorem polyline_contribution_witness:
  "uploadDXF [LWPOLYLINE [Pt 0 0, Pt 1 0, Pt 0 1] (Some True) None] = Inr \<lparr>pierceCount = 1, area = 1 / 2\<rparr> \<and>
   uploadDXF [LWPOLYLINE [Pt 0 0, Pt 1 0] None (Some True)] = Inr \<lparr>pierceCount = 1, area = 0\<rparr> \<and>
   uploadDXF [LWPOLYLINE [Pt 0 0, Pt 1 0, Pt 0 1] (Some False) None] = Inr \<lparr>pierceCount = 2, area = 0\<rparr>"
  using polyline_contribution [of "[]" "[]" "[Pt 0 0, Pt 1 0, Pt 0 1]" "Some True" None]
    polyline_contribution [of "[]" "[]" "[Pt 0 0, Pt 1 0]" None "Some True"]
    polyline_contribution [of "[]" "[]" "[Pt 0 0, Pt 1 0, Pt 0 1]" "Some False" None]
  by (simp add: uploadDXF_Nil truthy_def calculateArea_triangle)




section \<open>Snapping, self-loops and repeated invocations\<close>

lemma roundNumber_bounds:
  fixes x :: real and d :: nat
  defines "h \<equiv> 1 / (2 * 10 ^ d)"
  shows "x - h \<le> roundNumber x d" and "roundNumber x d \<le> x + h"
    and "roundNumber x d = x + h \<Longrightarrow> 0 \<le> x"
    and "roundNumber x d = x - h \<Longrightarrow> x < 0"
proof -
  define D :: real where "D = 10 ^ d"
  have D: "0 < D" by (simp add: D_def)
  have h: "h = 1 / (2 * D)" "0 < h" by (simp_all add: h_def D_def)
  have fl: "of_int \<lfloor>y\<rfloor> \<le> y \<and> y < of_int \<lfloor>y\<rfloor> + 1" for y :: real
    by linarith
  consider (big) "10 ^ 21 \<le> \<bar>x\<bar>" | (neg) "\<bar>x\<bar> < 10 ^ 21" "x < 0" | (pos) "\<bar>x\<bar> < 10 ^ 21" "0 \<le> x"
    by linarith
  then have "x - h \<le> roundNumber x d \<and> roundNumber x d \<le> x + h \<and>
      (roundNumber x d = x + h \<longrightarrow> 0 \<le> x) \<and> (roundNumber x d = x - h \<longrightarrow> x < 0)"
  proof cases
    case big
    then have "roundNumber x d = x" by (simp add: roundNumber_def)
    with h(2) show ?thesis by simp
  next
    case neg
    define n where "n = \<lfloor>(- x) * D + 1 / 2\<rfloor>"
    have r: "roundNumber x d = - (of_int n / D)"
      using neg by (simp add: roundNumber_def n_def D_def)
    from fl [of "(- x) * D + 1 / 2"]
    have "of_int n \<le> (- x) * D + 1 / 2" "(- x) * D + 1 / 2 < of_int n + 1"
      by (simp_all add: n_def)
    then have "of_int n / D \<le> ((- x) * D + 1 / 2) / D" "((- x) * D + 1 / 2 - 1) / D < of_int n / D"
      using D by (simp_all add: divide_right_mono divide_strict_right_mono)
    moreover have "((- x) * D + 1 / 2) / D = - x + h" "((- x) * D + 1 / 2 - 1) / D = - x - h"
      using D by (simp_all add: h add_divide_distrib diff_divide_distrib)
    ultimately have "of_int n / D \<le> - x + h" "- x - h < of_int n / D" by simp_all
    with r neg(2) show ?thesis by simp
  next
    case pos
    define n where "n = \<lfloor>x * D + 1 / 2\<rfloor>"
    have r: "roundNumber x d = of_int n / D"
      using pos by (simp add: roundNumber_def n_def D_def)
    from fl [of "x * D + 1 / 2"]
    have "of_int n \<le> x * D + 1 / 2" "x * D + 1 / 2 < of_int n + 1"
      by (simp_all add: n_def)
    then have "of_int n / D \<le> (x * D + 1 / 2) / D" "(x * D + 1 / 2 - 1) / D < of_int n / D"
      using D by (simp_all add: divide_right_mono divide_strict_right_mono)
    moreover have "(x * D + 1 / 2) / D = x + h" "(x * D + 1 / 2 - 1) / D = x - h"
      using D by (simp_all add: h add_divide_distrib diff_divide_distrib)
    ultimately have "of_int n / D \<le> x + h" "x - h < of_int n / D" by simp_all
    with r pos(2) show ?thesis by simp
  qed
  then show "x - h \<le> roundNumber x d" and "roundNumber x d \<le> x + h"
    and "roundNumber x d = x + h \<Longrightarrow> 0 \<le> x"
    and "roundNumber x d = x - h \<Longrightarrow> x < 0"
    by blast+
qed

lemma roundNumber_apart:
  fixes x y :: real
  assumes "1 / 10 ^ d \<le> \<bar>x - y\<bar>"
  shows "roundNumber x d \<noteq> roundNumber y d"
proof -
  define h :: real where "h = 1 / (2 * 10 ^ d)"
  have h: "0 < h" "1 / 10 ^ d = 2 * h" by (simp_all add: h_def)
  have less: "roundNumber a d \<noteq> roundNumber b d" if ab: "a + 2 * h \<le> b" for a b :: real
  proof
    assume eq: "roundNumber a d = roundNumber b d"
    have 1: "roundNumber a d \<le> a + h" and 2: "b - h \<le> roundNumber b d"
      using roundNumber_bounds(1,2) [of _ d] by (simp_all add: h_def)
    with eq ab have "roundNumber a d = a + h" "roundNumber b d = b - h" by linarith+
    then have "0 \<le> a" "b < 0"
      using roundNumber_bounds(3) [of a d] roundNumber_bounds(4) [of b d] by (simp_all add: h_def)
    with ab h(1) show False by linarith
  qed
  from assms h(2) consider "x + 2 * h \<le> y" | "y + 2 * h \<le> x" by linarith
  then show ?thesis
  proof cases
    case 1 then show ?thesis by (rule less)
  next
    case 2 then show ?thesis using less [of y x] by simp
  qed
qed

text \<open>
  C4.  The nodes of the graph are the keys of the segments' endpoints, and two endpoints
  have the same key exactly when their coordinates rounded to six decimals agree.
  Endpoints that differ by at least 0.000001 in a coordinate have different keys.  A
  smaller difference gives one node only when no rounding boundary lies between the
  points: \<open>(0.000000001, 0)\<close> and \<open>(0, 0)\<close> are one node, \<open>(0.0000005001, 0)\<close> and
  \<open>(0.0000004991, 0)\<close> are two.
\<close>

theorem pointKey_snapping:
  "(\<exists>st. buildGraph segs = Inr st \<and> nodes (graph st) = pointKey ` endpoints segs) \<and>
   (pointKey p = pointKey q \<longleftrightarrow>
      roundNumber (pt_x p) 6 = roundNumber (pt_x q) 6 \<and>
      roundNumber (pt_y p) 6 = roundNumber (pt_y q) 6) \<and>
   (1 / 10 ^ 6 \<le> \<bar>pt_x p - pt_x q\<bar> \<or> 1 / 10 ^ 6 \<le> \<bar>pt_y p - pt_y q\<bar>
      \<longrightarrow> pointKey p \<noteq> pointKey q) \<and>
   pointKey (Pt (1 / 10 ^ 9) 0) = pointKey (Pt 0 0) \<and>
   pointKey (Pt (5001 / 10 ^ 10) 0) \<noteq> pointKey (Pt (4991 / 10 ^ 10) 0)"
proof (intro conjI)
  obtain st where "buildGraph segs = Inr st" "nodes (graph st) = pointKey ` endpoints segs"
    by (rule buildGraph_props [of segs]) blast
  then show "\<exists>st. buildGraph segs = Inr st \<and> nodes (graph st) = pointKey ` endpoints segs"
    by blast
  show "pointKey p = pointKey q \<longleftrightarrow>
      roundNumber (pt_x p) 6 = roundNumber (pt_x q) 6 \<and>
      roundNumber (pt_y p) 6 = roundNumber (pt_y q) 6"
    by (simp add: pointKey_def)
  show "1 / 10 ^ 6 \<le> \<bar>pt_x p - pt_x q\<bar> \<or> 1 / 10 ^ 6 \<le> \<bar>pt_y p - pt_y q\<bar>
      \<longrightarrow> pointKey p \<noteq> pointKey q"
    using roundNumber_apart [of 6 "pt_x p" "pt_x q"] roundNumber_apart [of 6 "pt_y p" "pt_y q"]
    by (auto simp: pointKey_def)
  show "pointKey (Pt (1 / 10 ^ 9) 0) = pointKey (Pt 0 0)"
    by (simp add: pointKey_def roundNumber_def)
  show "pointKey (Pt (5001 / 10 ^ 10) 0) \<noteq> pointKey (Pt (4991 / 10 ^ 10) 0)"
    by (simp add: pointKey_def roundNumber_def)
qed

theorem pointKey_snapping_witness:
  "(1 / 10 ^ 6 \<le> \<bar>pt_x (Pt 0 0) - pt_x (Pt (1 / 10 ^ 6) 0)\<bar>) \<and>
   pointKey (Pt 0 0) \<noteq> pointKey (Pt (1 / 10 ^ 6) 0) \<and>
   pointKey (Pt 0 0) = (0, 0) \<and> pointKey (Pt (1 / 10 ^ 6) 0) = (1 / 10 ^ 6, 0)"
  using pointKey_snapping [of "[]" "Pt 0 0" "Pt (1 / 10 ^ 6) 0"]
  by (simp add: pointKey_def roundNumber_def)

theorem pointKey_nearby_distinct_counterexample:
  "\<bar>pt_x (Pt (5001 / 10 ^ 10) 0) - pt_x (Pt (4991 / 10 ^ 10) 0)\<bar> = 1 / 10 ^ 9 \<and>
   pt_y (Pt (5001 / 10 ^ 10) 0) = pt_y (Pt (4991 / 10 ^ 10) 0) \<and>
   pointKey (Pt (5001 / 10 ^ 10) 0) = (1 / 10 ^ 6, 0) \<and>
   pointKey (Pt (4991 / 10 ^ 10) 0) = (0, 0) \<and>
   pointKey (Pt (5001 / 10 ^ 10) 0) \<noteq> pointKey (Pt (4991 / 10 ^ 10) 0)"
  by (simp add: pointKey_def roundNumber_def)

lemma pointKey_chain [simp]:
  "pointKey (Pt 2 0) = (2, 0)" "pointKey (Pt 1 3) = (1, 3)"
  by (simp_all add: pointKey_def roundNumber_def)

lemma segments_danglingChain:
  "segments (normalizeEntities danglingChain) =
     [Seg (Pt 0 0) (Pt 0 0), Seg (Pt 0 0) (Pt 2 0), Seg (Pt 2 0) (Pt 1 3), Seg (Pt 1 3) (Pt 1 3)]"
  by (simp add: normalizeEntities_def danglingChain_def Seg_def)

lemma buildGraph_chain:
  "buildGraph [Seg (Pt 0 0) (Pt 0 0), Seg (Pt 0 0) (Pt 2 0), Seg (Pt 2 0) (Pt 1 3), Seg (Pt 1 3) (Pt 1 3)]
     = Inr \<lparr>graph = chainGraph, pointsMap = chainPoints\<rparr>"
  by (simp add: buildGraph_def addSegment_def ensureNode_def graphAdd_def
      setAdd_def Let_def chainGraph_def chainPoints_def)

lemma findComponents_chainGraph:
  "findComponents chainGraph = Inr [[(0, 0), (2, 0), (1, 3)]]"
  by (simp add: findComponents_def chainGraph_def)

lemma atan2_chain:
  "atan2 (- 1) (- 1) = - (3 * pi / 4)"
  "atan2 (- 1) 1 = - (pi / 4)"
  "atan2 2 0 = pi / 2"
  by (simp_all add: atan2_def arctan_one arctan_minus)

lemma centroid_chain: "centroidOf [Pt 0 0, Pt 2 0, Pt 1 3] = Pt 1 1"
  by (simp add: centroidOf_def Pt_def)

lemma sortByAngle_chain: "sortByAngle [Pt 0 0, Pt 2 0, Pt 1 3] = [Pt 0 0, Pt 2 0, Pt 1 3]"
proof -
  have "- (3 * pi / 4) \<le> - (pi / 4)" "- (pi / 4) \<le> pi / 2" "- (3 * pi / 4) \<le> pi / 2"
    using pi_gt_zero by linarith+
  then show ?thesis
    by (simp add: sortByAngle_def centroid_chain angleAround_def atan2_chain)
qed

lemma contribution_chain:
  "componentContribution chainGraph chainPoints [(0, 0), (2, 0), (1, 3)] = Inr (1, 3)"
  by (simp add: componentContribution_def chainGraph_def chainPoints_def
      sortByAngle_chain calculateArea_triangle)

text \<open>
  C2.  Two zero-length lines at the ends of an open chain of two lines: the nodes
  \<open>(0, 0)\<close> and \<open>(1, 3)\<close> are their own neighbours, every adjacency set has two members,
  and the engine reports the chain as one closed loop with the area of the triangle.
\<close>

theorem self_loop_chain_counted_closed:
  "buildGraph (segments (normalizeEntities danglingChain)) =
      Inr \<lparr>graph = chainGraph, pointsMap = chainPoints\<rparr> \<and>
   (0, 0) \<in> adjacent chainGraph (0, 0) \<and>
   findComponents chainGraph = Inr [[(0, 0), (2, 0), (1, 3)]] \<and>
   componentContribution chainGraph chainPoints [(0, 0), (2, 0), (1, 3)] = Inr (1, 3) \<and>
   uploadDXF danglingChain = Inr \<lparr>pierceCount = 1, area = 3\<rparr>"
proof -
  have "grouped (segments (normalizeEntities danglingChain)) = Inr (1, 3)"
    by (simp add: grouped_def segments_danglingChain buildGraph_chain findComponents_chainGraph
        contribution_chain)
  then have "uploadDXF danglingChain = Inr \<lparr>pierceCount = 1, area = 3\<rparr>"
    by (simp add: uploadDXF_grouped) (simp add: normalizeEntities_def danglingChain_def)
  moreover have "(0, 0) \<in> adjacent chainGraph (0, 0)"
    by (simp add: adjacent_def chainGraph_def)
  ultimately show ?thesis
    by (simp add: segments_danglingChain buildGraph_chain findComponents_chainGraph
        contribution_chain)
qed



section \<open>An isolated degenerate segment\<close>

lemma traverse_mono:
  "traverse g V cs stack = Inr (W, cs') \<Longrightarrow> V \<subseteq> W"
proof (induction g V cs stack rule: traverse.induct)
  case (1 g visited compKeys)
  then show ?case by simp
next
  case (2 g visited compKeys current stack)
  show ?case
  proof (cases "current \<in> visited")
    case True
    with 2 show ?thesis by simp
  next
    case False
    with "2.prems" obtain adj where adj: "map_of g current = Some adj"
      by (cases "map_of g current") auto
    with "2.IH"(2) [OF False adj] "2.prems" False show ?thesis by auto
  qed
qed

lemma traverse_avoids:
  assumes "\<forall>a s. map_of g a = Some s \<longrightarrow> k \<notin> set s"
    and "traverse g V cs stack = Inr (W, cs')" and "k \<notin> V" and "k \<notin> set stack"
  shows "k \<notin> W"
  using assms
proof (induction g V cs stack rule: traverse.induct)
  case (1 g visited compKeys)
  then show ?case by simp
next
  case (2 g visited compKeys current stack)
  show ?case
  proof (cases "current \<in> visited")
    case True
    with 2 show ?thesis by simp
  next
    case False
    with "2.prems" obtain adj where adj: "map_of g current = Some adj"
      by (cases "map_of g current") auto
    have "k \<notin> set adj" using "2.prems"(1) adj by blast
    with "2.IH"(2) [OF False adj "2.prems"(1)] "2.prems" False adj show ?thesis by auto
  qed
qed

lemma traverse_extra_node:
  assumes "\<forall>a. a \<noteq> k \<longrightarrow> map_of g' a = map_of g a"
    and "\<forall>a s. map_of g a = Some s \<longrightarrow> k \<notin> set s"
    and "k \<notin> set stack" and "V \<subseteq> V'" and "V' \<subseteq> insert k V"
  shows "traverse g' V' cs stack =
     (case traverse g V cs stack of Inl e \<Rightarrow> Inl e | Inr (W, cs') \<Rightarrow> Inr (W \<union> V', cs'))"
  using assms
proof (induction g V cs stack arbitrary: V' rule: traverse.induct)
  case (1 g visited compKeys)
  then show ?case by auto
next
  case (2 g visited compKeys current stack)
  from "2.prems"(3) have ck: "current \<noteq> k" and ks: "k \<notin> set stack" by auto
  then have m: "map_of g' current = map_of g current" using "2.prems"(1) by blast
  have v: "current \<in> V' \<longleftrightarrow> current \<in> visited" using "2.prems"(4,5) ck by auto
  show ?case
  proof (cases "current \<in> visited")
    case True
    with "2.IH"(1) [OF True "2.prems"(1,2) ks "2.prems"(4,5)] v show ?thesis by simp
  next
    case False
    show ?thesis
    proof (cases "map_of g current")
      case None
      with False v m show ?thesis by simp
    next
      case (Some adj)
      have "k \<notin> set adj" using "2.prems"(2) Some by blast
      then have f: "filter (\<lambda>neighbor. neighbor \<notin> insert current V') adj
          = filter (\<lambda>neighbor. neighbor \<notin> insert current visited) adj"
        using "2.prems"(4,5) by (intro filter_cong) auto
      let ?st = "rev (filter (\<lambda>neighbor. neighbor \<notin> insert current visited) adj) @ stack"
      have k': "k \<notin> set ?st" using ks \<open>k \<notin> set adj\<close> by auto
      have "traverse g' (insert current V') (compKeys @ [current]) ?st =
          (case traverse g (insert current visited) (compKeys @ [current]) ?st of
             Inl e \<Rightarrow> Inl e | Inr (W, cs') \<Rightarrow> Inr (W \<union> insert current V', cs'))"
        using "2.prems"(4,5) by (intro "2.IH"(2) [OF False Some "2.prems"(1,2) k']) auto
      moreover have "W \<union> insert current V' = W \<union> V'"
        if "traverse g (insert current visited) (compKeys @ [current]) ?st = Inr (W, cs')" for W cs'
        using traverse_mono [OF that] by auto
      ultimately show ?thesis using False v m Some f by (auto split: sum.splits)
    qed
  qed
qed

lemma componentsLoop_acc:
  "componentsLoop g keys V comps =
     (case componentsLoop g keys V [] of Inl e \<Rightarrow> Inl e | Inr new \<Rightarrow> Inr (comps @ new))"
proof (induction keys arbitrary: V comps)
  case Nil
  show ?case by simp
next
  case (Cons key keys)
  show ?case
  proof (cases "key \<in> V")
    case True
    with Cons [of V comps] show ?thesis by simp
  next
    case False
    show ?thesis
    proof (cases "traverse g V [] [key]")
      case (Inl e)
      with False show ?thesis by simp
    next
      case (Inr r)
      obtain W c where r: "r = (W, c)" by (cases r)
      from Cons [of W "comps @ [c]"] Cons [of W "[c]"] False Inr r show ?thesis
        by (auto split: sum.splits)
    qed
  qed
qed

lemma componentsLoop_extra_node:
  assumes "\<forall>a. a \<noteq> k \<longrightarrow> map_of g' a = map_of g a"
    and "\<forall>a s. map_of g a = Some s \<longrightarrow> k \<notin> set s"
    and "k \<notin> set keys" and "V \<subseteq> V'" and "V' \<subseteq> insert k V"
  shows "componentsLoop g' keys V' comps = componentsLoop g keys V comps"
  using assms(3-)
proof (induction keys arbitrary: V V' comps)
  case Nil
  show ?case by simp
next
  case (Cons key keys)
  from Cons.prems have kk: "key \<noteq> k" and ks: "k \<notin> set keys" by auto
  have v: "key \<in> V' \<longleftrightarrow> key \<in> V" using Cons.prems(2,3) kk by auto
  show ?case
  proof (cases "key \<in> V")
    case True
    with Cons.IH [OF ks Cons.prems(2,3)] v show ?thesis by simp
  next
    case False
    have t: "traverse g' V' [] [key] =
       (case traverse g V [] [key] of Inl e \<Rightarrow> Inl e | Inr (W, cs') \<Rightarrow> Inr (W \<union> V', cs'))"
      using kk by (intro traverse_extra_node [OF assms(1,2) _ Cons.prems(2,3)]) simp
    show ?thesis
    proof (cases "traverse g V [] [key]")
      case (Inl e)
      with t False v show ?thesis by simp
    next
      case (Inr r)
      obtain W c where r: "r = (W, c)" by (cases r)
      have "V \<subseteq> W" using traverse_mono Inr r by blast
      then have "W \<subseteq> W \<union> V'" "W \<union> V' \<subseteq> insert k W" using Cons.prems(3) by auto
      from Cons.IH [OF ks this] t False v Inr r show ?thesis by simp
    qed
  qed
qed

lemma componentsLoop_insert_key:
  assumes "\<forall>a. a \<noteq> k \<longrightarrow> map_of g' a = map_of g a"
    and "\<forall>a s. map_of g a = Some s \<longrightarrow> k \<notin> set s"
    and "map_of g' k = Some [k]"
    and "k \<notin> set ks1" and "k \<notin> set ks2" and "k \<notin> V"
    and "componentsLoop g (ks1 @ ks2) V comps = Inr res"
  shows "\<exists>xs ys. res = xs @ ys \<and> componentsLoop g' (ks1 @ k # ks2) V comps = Inr (xs @ [k] # ys)"
  using assms(4-)
proof (induction ks1 arbitrary: V comps)
  case Nil
  have "traverse g' V [] [k] = Inr (insert k V, [k])"
    using Nil.prems(3) assms(3) by simp
  then have "componentsLoop g' (k # ks2) V comps = componentsLoop g' ks2 (insert k V) (comps @ [[k]])"
    using Nil.prems(3) by simp
  also have "\<dots> = componentsLoop g ks2 V (comps @ [[k]])"
    by (rule componentsLoop_extra_node [OF assms(1,2) Nil.prems(2)]) auto
  finally have 1: "componentsLoop g' (k # ks2) V comps = componentsLoop g ks2 V (comps @ [[k]])" .
  from Nil.prems(4) obtain new where new: "componentsLoop g ks2 V [] = Inr new" "res = comps @ new"
    using componentsLoop_acc [of g ks2 V comps] by (auto split: sum.splits)
  then have "componentsLoop g ks2 V (comps @ [[k]]) = Inr (comps @ [k] # new)"
    using componentsLoop_acc [of g ks2 V "comps @ [[k]]"] by simp
  with 1 new(2) show ?case by auto
next
  case (Cons key ks1)
  from Cons.prems have kk: "key \<noteq> k" and ks: "k \<notin> set ks1" by auto
  show ?case
  proof (cases "key \<in> V")
    case True
    with Cons.IH [OF ks Cons.prems(2,3), of comps] Cons.prems(4) show ?thesis by simp
  next
    case False
    have t: "traverse g' V [] [key] =
       (case traverse g V [] [key] of Inl e \<Rightarrow> Inl e | Inr (W, cs') \<Rightarrow> Inr (W \<union> V, cs'))"
      using kk by (intro traverse_extra_node [OF assms(1,2)]) auto
    from Cons.prems(4) False obtain W c where r: "traverse g V [] [key] = Inr (W, c)"
      by (cases "traverse g V [] [key]") auto
    have "V \<subseteq> W" using traverse_mono r by blast
    then have t': "traverse g' V [] [key] = Inr (W, c)" using t r by (simp add: Un_absorb2)
    have "k \<notin> W" using traverse_avoids [OF assms(2) r Cons.prems(3)] kk by simp
    from Cons.IH [OF ks Cons.prems(2) this, of "comps @ [c]"] Cons.prems(4) False r t'
    show ?thesis by simp
  qed
qed

lemma everySizeTwo_cong:
  "\<forall>a\<in>set c. map_of g' a = map_of g a \<Longrightarrow> everySizeTwo g' c = everySizeTwo g c"
  by (induction c) (auto split: option.splits)

lemma lookupPoints_cong:
  "\<forall>a\<in>set c. pm' a = pm a \<Longrightarrow> lookupPoints pm' c = lookupPoints pm c"
  by (induction c) (auto split: option.splits)

lemma componentContribution_cong:
  assumes "\<forall>a\<in>set c. map_of g' a = map_of g a" and "\<forall>a\<in>set c. pm' a = pm a"
  shows "componentContribution g' pm' c = componentContribution g pm c"
  unfolding componentContribution_def everySizeTwo_cong [OF assms(1)]
    lookupPoints_cong [OF assms(2)] by (rule refl)

lemma componentContribution_self_loop:
  "map_of g k = Some [k] \<Longrightarrow> componentContribution g pm [k] = Inr (2, 0)"
  by (simp add: componentContribution_def)

lemma groupComponents_insert_self_loop:
  assumes "list_all2 (\<lambda>c r. componentContribution g pm c = Inr r) (xs @ ys) rs"
    and "\<forall>c\<in>set (xs @ ys). k \<notin> set c"
    and "\<forall>a. a \<noteq> k \<longrightarrow> map_of g' a = map_of g a"
    and "\<forall>a. a \<noteq> k \<longrightarrow> pm' a = pm a"
    and "map_of g' k = Some [k]"
  shows "groupComponents g' pm' (0, 0) (xs @ [k] # ys) =
           Inr (sum_list (map fst rs) + 2, sum_list (map snd rs))"
proof -
  from assms(1) obtain rs1 rs2 where rs: "rs = rs1 @ rs2"
    "list_all2 (\<lambda>c r. componentContribution g pm c = Inr r) xs rs1"
    "list_all2 (\<lambda>c r. componentContribution g pm c = Inr r) ys rs2"
    by (auto simp: list_all2_append1)
  have same: "componentContribution g' pm' c = componentContribution g pm c"
    if "c \<in> set (xs @ ys)" for c
  proof (intro componentContribution_cong ballI)
    fix a assume "a \<in> set c"
    with that assms(2) have "a \<noteq> k" by blast
    with assms(3,4) show "map_of g' a = map_of g a" "pm' a = pm a" by blast+
  qed
  have 1: "list_all2 (\<lambda>c r. componentContribution g' pm' c = Inr r) xs rs1"
    using rs(2) same by (auto simp: list_all2_conv_all_nth)
  have 2: "list_all2 (\<lambda>c r. componentContribution g' pm' c = Inr r) ys rs2"
    using rs(3) same by (auto simp: list_all2_conv_all_nth)
  have 3: "componentContribution g' pm' [k] = Inr (2, 0)"
    using assms(5) by (rule componentContribution_self_loop)
  have "list_all2 (\<lambda>c r. componentContribution g' pm' c = Inr r) (xs @ [k] # ys) (rs1 @ (2, 0) # rs2)"
    using 1 2 3 by (simp add: list_all2_appendI)
  from groupComponents_sum [OF this, of 0 0] show ?thesis by (simp add: rs(1))
qed

lemma pointsMap_ensureNode_twice:
  "pointsMap (ensureNode (ensureNode st k1 p1) k2 p2) =
     (\<lambda>a. if a \<in> nodes (graph st) then pointsMap st a
          else if a = k1 then Some p1
          else if a = k2 then Some p2 else pointsMap st a)"
proof -
  have "nodes (graph (ensureNode st k1 p1)) = insert k1 (nodes (graph st))"
    by (auto simp: nodes_dom ensureNode_props(2))
  then show ?thesis by (auto simp: ensureNode_props(3) fun_eq_iff)
qed

lemma addSegment_extra_node:
  assumes f': "map fst (graph st') = ks1 @ k # ks2" and f: "map fst (graph st) = ks1 @ ks2"
    and m': "map_of (graph st') = (map_of (graph st))(k \<mapsto> [k])"
    and p': "pointsMap st' = (pointsMap st)(k \<mapsto> p)"
    and kn: "k \<notin> nodes (graph st)"
    and k1: "pointKey (seg_start seg) \<noteq> k" and k2: "pointKey (seg_end seg) \<noteq> k"
  shows "\<exists>t' t ks2'. addSegment st' seg = Inr t' \<and> addSegment st seg = Inr t \<and>
           map fst (graph t') = ks1 @ k # ks2' \<and> map fst (graph t) = ks1 @ ks2' \<and>
           map_of (graph t') = (map_of (graph t))(k \<mapsto> [k]) \<and>
           pointsMap t' = (pointsMap t)(k \<mapsto> p) \<and> k \<notin> nodes (graph t)"
proof -
  define a where "a = pointKey (seg_start seg)"
  define b where "b = pointKey (seg_end seg)"
  define new where "new = (if a \<in> nodes (graph st) then [] else [a])
            @ (if b \<in> insert a (nodes (graph st)) then [] else [b])"
  have ak: "a \<noteq> k" and bk: "b \<noteq> k" using k1 k2 by (simp_all add: a_def b_def)
  have n': "nodes (graph st') = insert k (nodes (graph st))"
    by (simp add: nodes_dom m')
  obtain t where t: "addSegment st seg = Inr t"
    and tf: "map fst (graph t) = map fst (graph st) @ new"
    and tm: "map_of (graph t) =
           (if a = b then (map_of (graph st))(a \<mapsto> setAdd a (case map_of (graph st) a of None \<Rightarrow> [] | Some s \<Rightarrow> s))
            else (map_of (graph st))(a \<mapsto> setAdd b (case map_of (graph st) a of None \<Rightarrow> [] | Some s \<Rightarrow> s),
                                     b \<mapsto> setAdd a (case map_of (graph st) b of None \<Rightarrow> [] | Some s \<Rightarrow> s)))"
    and tp: "pointsMap t = pointsMap (ensureNode (ensureNode st a (seg_start seg)) b (seg_end seg))"
    unfolding a_def b_def new_def by (rule addSegment_explicit [of st seg])
  obtain t' where t': "addSegment st' seg = Inr t'"
    and tf': "map fst (graph t') = map fst (graph st') @ (if a \<in> nodes (graph st') then [] else [a])
            @ (if b \<in> insert a (nodes (graph st')) then [] else [b])"
    and tm': "map_of (graph t') =
           (if a = b then (map_of (graph st'))(a \<mapsto> setAdd a (case map_of (graph st') a of None \<Rightarrow> [] | Some s \<Rightarrow> s))
            else (map_of (graph st'))(a \<mapsto> setAdd b (case map_of (graph st') a of None \<Rightarrow> [] | Some s \<Rightarrow> s),
                                     b \<mapsto> setAdd a (case map_of (graph st') b of None \<Rightarrow> [] | Some s \<Rightarrow> s)))"
    and tp': "pointsMap t' = pointsMap (ensureNode (ensureNode st' a (seg_start seg)) b (seg_end seg))"
    unfolding a_def b_def by (rule addSegment_explicit [of st' seg])
  have 1: "map fst (graph t') = ks1 @ k # (ks2 @ new)"
    using ak bk by (simp add: tf' n' f' new_def)
  have 2: "map fst (graph t) = ks1 @ (ks2 @ new)"
    by (simp add: tf f)
  have la: "map_of (graph st') a = map_of (graph st) a" and lb: "map_of (graph st') b = map_of (graph st) b"
    using ak bk by (simp_all add: m')
  have 3: "map_of (graph t') = (map_of (graph t))(k \<mapsto> [k])"
    unfolding tm' tm la lb m' using ak bk by (auto simp: fun_eq_iff)
  have 4: "pointsMap t' = (pointsMap t)(k \<mapsto> p)"
    unfolding tp' tp pointsMap_ensureNode_twice n' p' using ak bk kn by (auto simp: fun_eq_iff)
  have "nodes (graph t) = set (map fst (graph t))" by (simp add: nodes_def)
  then have 5: "k \<notin> nodes (graph t)"
    using kn ak bk by (auto simp: tf new_def nodes_def)
  show ?thesis
    by (rule exI [where x = t'], rule exI [where x = t], rule exI [where x = "ks2 @ new"])
       (use t t' 1 2 3 4 5 in simp)
qed

lemma buildFrom_extra_node:
  assumes "map fst (graph st') = ks1 @ k # ks2" and "map fst (graph st) = ks1 @ ks2"
    and "map_of (graph st') = (map_of (graph st))(k \<mapsto> [k])"
    and "pointsMap st' = (pointsMap st)(k \<mapsto> p)"
    and "k \<notin> nodes (graph st)"
    and "k \<notin> pointKey ` endpoints segs"
  shows "\<exists>t' t ks2'. buildFrom st' segs = Inr t' \<and> buildFrom st segs = Inr t \<and>
           map fst (graph t') = ks1 @ k # ks2' \<and> map fst (graph t) = ks1 @ ks2' \<and>
           map_of (graph t') = (map_of (graph t))(k \<mapsto> [k]) \<and>
           pointsMap t' = (pointsMap t)(k \<mapsto> p) \<and> k \<notin> nodes (graph t)"
  using assms
proof (induction segs arbitrary: st st' ks2)
  case Nil
  show ?case
    by (rule exI [where x = st'], rule exI [where x = st], rule exI [where x = ks2])
       (use Nil in simp)
next
  case (Cons seg segs)
  from Cons.prems(6) have k1: "pointKey (seg_start seg) \<noteq> k" and k2: "pointKey (seg_end seg) \<noteq> k"
    and rest: "k \<notin> pointKey ` endpoints segs"
    by (auto simp: endpoints_Cons)
  from addSegment_extra_node [OF Cons.prems(1-5) k1 k2]
  obtain u' u ks2' where u: "addSegment st' seg = Inr u'" "addSegment st seg = Inr u"
    "map fst (graph u') = ks1 @ k # ks2'" "map fst (graph u) = ks1 @ ks2'"
    "map_of (graph u') = (map_of (graph u))(k \<mapsto> [k])"
    "pointsMap u' = (pointsMap u)(k \<mapsto> p)" "k \<notin> nodes (graph u)"
    by (elim exE conjE)
  from Cons.IH [OF u(3-7) rest] u(1,2) show ?case by simp
qed

lemma grouped_isolated_self_loop:
  assumes keys: "pointKey (seg_start a) = k" "pointKey (seg_end a) = k"
    and iso: "k \<notin> pointKey ` endpoints (S1 @ S2)"
  shows "\<exists>P A. grouped (S1 @ S2) = Inr (P, A) \<and> grouped (S1 @ a # S2) = Inr (P + 2, A)"
proof -
  let ?st0 = "\<lparr>graph = [], pointsMap = Map.empty\<rparr>"
  have iso1: "k \<notin> pointKey ` endpoints S1" and iso2: "k \<notin> pointKey ` endpoints S2"
    using iso by (auto simp: endpoints_def)
  obtain sa where sa: "buildGraph S1 = Inr sa" "nodes (graph sa) = pointKey ` endpoints S1"
    by (rule buildGraph_props [of S1]) blast
  have kn: "k \<notin> nodes (graph sa)" using sa(2) iso1 by simp
  then have mk: "map_of (graph sa) k = None" by (auto simp: nodes_dom)
  obtain sa' where sa': "addSegment sa a = Inr sa'"
    and f': "map fst (graph sa') = map fst (graph sa) @ (if k \<in> nodes (graph sa) then [] else [k])
            @ (if k \<in> insert k (nodes (graph sa)) then [] else [k])"
    and m': "map_of (graph sa') =
           (if k = k then (map_of (graph sa))(k \<mapsto> setAdd k (case map_of (graph sa) k of None \<Rightarrow> [] | Some s \<Rightarrow> s))
            else (map_of (graph sa))(k \<mapsto> setAdd k (case map_of (graph sa) k of None \<Rightarrow> [] | Some s \<Rightarrow> s),
                                     k \<mapsto> setAdd k (case map_of (graph sa) k of None \<Rightarrow> [] | Some s \<Rightarrow> s)))"
    and p': "pointsMap sa' = pointsMap (ensureNode (ensureNode sa k (seg_start a)) k (seg_end a))"
    using addSegment_explicit [of sa a] unfolding keys by blast
  have 1: "map fst (graph sa') = map fst (graph sa) @ k # []" using f' kn by simp
  have 2: "map fst (graph sa) = map fst (graph sa) @ []" by simp
  have 3: "map_of (graph sa') = (map_of (graph sa))(k \<mapsto> [k])"
    using m' mk by (simp add: setAdd_def)
  have 4: "pointsMap sa' = (pointsMap sa)(k \<mapsto> seg_start a)"
    unfolding p' pointsMap_ensureNode_twice using kn by (auto simp: fun_eq_iff)
  from buildFrom_extra_node [OF 1 2 3 4 kn iso2]
  obtain t' t ks2 where t: "buildFrom sa' S2 = Inr t'" "buildFrom sa S2 = Inr t"
    "map fst (graph t') = map fst (graph sa) @ k # ks2" "map fst (graph t) = map fst (graph sa) @ ks2"
    "map_of (graph t') = (map_of (graph t))(k \<mapsto> [k])"
    "pointsMap t' = (pointsMap t)(k \<mapsto> seg_start a)" "k \<notin> nodes (graph t)"
    by (elim exE conjE)
  have b': "buildGraph (S1 @ a # S2) = Inr t'"
    using sa(1) sa' t(1) by (simp add: buildGraph_def buildFrom_append)
  have b: "buildGraph (S1 @ S2) = Inr t"
    using sa(1) t(2) by (simp add: buildGraph_def buildFrom_append)
  obtain st comps rs where g: "buildGraph (S1 @ S2) = Inr st" "graphInv st"
    "findComponents (graph st) = Inr comps"
    "set ` set comps = reachable (graph st) ` nodes (graph st)"
    "list_all2 (\<lambda>c r. componentContribution (graph st) (pointsMap st) c = Inr r \<and>
                       specContribution (graph st) (pointsMap st) c r) comps rs"
    "grouped (S1 @ S2) = Inr (sum_list (map fst rs), sum_list (map snd rs))"
    by (rule grouped_total [of "S1 @ S2"]) blast
  from g(1) b have st: "st = t" by simp
  note g = g [unfolded st]
  have gc: "graphClosed (graph t)" using g(2) by (rule graphInv_graphClosed)
  have agree: "\<forall>x. x \<noteq> k \<longrightarrow> map_of (graph t') x = map_of (graph t) x"
    by (simp add: t(5))
  have agreep: "\<forall>x. x \<noteq> k \<longrightarrow> pointsMap t' x = pointsMap t x"
    by (simp add: t(6))
  have self: "map_of (graph t') k = Some [k]" by (simp add: t(5))
  have nonb: "\<forall>x s. map_of (graph t) x = Some s \<longrightarrow> k \<notin> set s"
    using graphInvD(3) [OF g(2)] t(7) by blast
  have "nodes (graph t) = set (map fst (graph sa) @ ks2)"
    unfolding t(4) [symmetric] by (simp add: nodes_def)
  then have kk: "k \<notin> set (map fst (graph sa))" "k \<notin> set ks2"
    using t(7) by simp_all
  have "componentsLoop (graph t) (map fst (graph sa) @ ks2) {} [] = Inr comps"
    using g(3) by (simp add: findComponents_def t(4))
  from componentsLoop_insert_key [OF agree nonb self kk _ this]
  obtain xs ys where xy: "comps = xs @ ys"
    "componentsLoop (graph t') (map fst (graph sa) @ k # ks2) {} [] = Inr (xs @ [k] # ys)"
    by auto
  have f: "findComponents (graph t') = Inr (xs @ [k] # ys)"
    using xy(2) by (simp add: findComponents_def t(3))
  have nok: "\<forall>c\<in>set (xs @ ys). k \<notin> set c"
  proof
    fix c assume "c \<in> set (xs @ ys)"
    then have "set c \<in> reachable (graph t) ` nodes (graph t)" using g(4) xy(1) by blast
    then have "set c \<subseteq> nodes (graph t)" using reachable_nodes [OF gc] by auto
    with t(7) show "k \<notin> set c" by blast
  qed
  have "list_all2 (\<lambda>c r. componentContribution (graph t) (pointsMap t) c = Inr r) (xs @ ys) rs"
    using g(5) unfolding xy(1) by (rule list_all2_mono) simp
  from groupComponents_insert_self_loop [OF this nok agree agreep self]
  have "grouped (S1 @ a # S2) = Inr (sum_list (map fst rs) + 2, sum_list (map snd rs))"
    using b' f by (simp add: grouped_def)
  with g(6) show ?thesis by blast
qed

text \<open>
  C10.  An arc whose projected start and end points have the same key, and whose key no
  other segment's endpoint has, adds pierce count 2 and no area to what the engine
  returns for the other entities.
\<close>

theorem degenerate_arc_contribution:
  assumes "pointKey (arcPoint c r sa) = pointKey (arcPoint c r ea)"
    and "pointKey (arcPoint c r sa) \<notin> pointKey ` endpoints (segments (normalizeEntities (es1 @ es2)))"
  shows "\<exists>res. uploadDXF (es1 @ es2) = Inr res \<and>
           uploadDXF (es1 @ ARC c r sa ea # es2) =
             Inr \<lparr>pierceCount = pierceCount res + 2, area = area res\<rparr>"
proof -
  let ?e = "ARC c r sa ea"
  let ?a = "\<lparr>seg_start = arcPoint c r sa, seg_end = arcPoint c r ea\<rparr>"
  let ?S1 = "segments (normalizeEntities es1)" and ?S2 = "segments (normalizeEntities es2)"
  have s12: "segments (normalizeEntities (es1 @ es2)) = ?S1 @ ?S2"
    by (simp add: normalizeEntities_append plus_normalized_def)
  have n: "normalizeEntities (es1 @ ?e # es2) =
     \<lparr>independentPierceCount = independentPierceCount (normalizeEntities (es1 @ es2)),
      independentArea = independentArea (normalizeEntities (es1 @ es2)),
      segments = ?S1 @ ?a # ?S2\<rparr>"
    unfolding normalizeEntities_insert by (simp add: initial_def)
  have "\<exists>P A. grouped (?S1 @ ?S2) = Inr (P, A) \<and> grouped (?S1 @ ?a # ?S2) = Inr (P + 2, A)"
    by (rule grouped_isolated_self_loop [where k = "pointKey (arcPoint c r sa)"])
       (use assms in \<open>simp_all add: s12\<close>)
  then obtain P A where g: "grouped (?S1 @ ?S2) = Inr (P, A)"
    "grouped (?S1 @ ?a # ?S2) = Inr (P + 2, A)" by blast
  have "uploadDXF (es1 @ es2) =
      Inr \<lparr>pierceCount = independentPierceCount (normalizeEntities (es1 @ es2)) + P,
           area = independentArea (normalizeEntities (es1 @ es2)) + A\<rparr>"
    using g(1) by (simp add: uploadDXF_grouped s12)
  moreover have "uploadDXF (es1 @ ?e # es2) =
      Inr \<lparr>pierceCount = independentPierceCount (normalizeEntities (es1 @ es2)) + P + 2,
           area = independentArea (normalizeEntities (es1 @ es2)) + A\<rparr>"
    using g(2) unfolding uploadDXF_grouped n by simp
  ultimately show ?thesis by simp
qed

theorem degenerate_arc_contribution_witness:
  "pointKey (arcPoint (Pt 5 5) 1 0) = (6, 5) \<and> pointKey (arcPoint (Pt 5 5) 1 360) = (6, 5) \<and>
   (6, 5) \<notin> pointKey ` endpoints (segments (normalizeEntities (squareLines @ []))) \<and>
   uploadDXF (squareLines @ []) = Inr \<lparr>pierceCount = 1, area = 1\<rparr> \<and>
   uploadDXF (squareLines @ ARC (Pt 5 5) 1 0 360 # []) = Inr \<lparr>pierceCount = 3, area = 1\<rparr>"
proof -
  have k: "pointKey (arcPoint (Pt 5 5) 1 0) = (6, 5)" "pointKey (arcPoint (Pt 5 5) 1 360) = (6, 5)"
    by (simp_all add: arcPoint_def pointKey_def roundNumber_def)
  have i: "(6, 5) \<notin> pointKey ` endpoints (segments (normalizeEntities (squareLines @ [])))"
    by (simp add: normalizeEntities_squareLines endpoints_unitSquare)
  have u: "uploadDXF (squareLines @ []) = Inr \<lparr>pierceCount = 1, area = 1\<rparr>"
    by (simp add: uploadDXF_squareLines)
  from degenerate_arc_contribution [of "Pt 5 5" 1 0 360 squareLines "[]"] k i u
  show ?thesis by simp
qed

section \<open>The mixed drawing\<close>




















end
